theory Spec2Isabelle
  imports Main "HOL-Library.Word"
begin

unbundle bit_operations_syntax

section \<open>Constants.h\<close>

text \<open>
  A bitboard is a \<open>uint64_t\<close>: bit \<open>s\<close> stands for square \<open>s\<close>. Square indices are
  \<open>uint8_t\<close> values, modelled as natural numbers; \<open>int\<close> quantities (ply, scores) are
  modelled as mathematical integers.
\<close>

type_synonym bitboard = "64 word"

definition ENGINE_IS_WHITE :: bool where
  "ENGINE_IS_WHITE = True"

definition SEARCH_DEPTH :: int where
  "SEARCH_DEPTH = 5"

datatype PieceType =
    PLAYER_PAWN | PLAYER_KNIGHT | PLAYER_BISHOP | PLAYER_ROOK | PLAYER_QUEEN | PLAYER_KING
  | ENGINE_PAWN | ENGINE_KNIGHT | ENGINE_BISHOP | ENGINE_ROOK | ENGINE_QUEEN | ENGINE_KING
  | NONE

text \<open>The integer value of an enumerator, used where the source compares or indexes with it.\<close>

fun pieceIndex :: "PieceType \<Rightarrow> nat" where
  "pieceIndex PLAYER_PAWN = 0"
| "pieceIndex PLAYER_KNIGHT = 1"
| "pieceIndex PLAYER_BISHOP = 2"
| "pieceIndex PLAYER_ROOK = 3"
| "pieceIndex PLAYER_QUEEN = 4"
| "pieceIndex PLAYER_KING = 5"
| "pieceIndex ENGINE_PAWN = 6"
| "pieceIndex ENGINE_KNIGHT = 7"
| "pieceIndex ENGINE_BISHOP = 8"
| "pieceIndex ENGINE_ROOK = 9"
| "pieceIndex ENGINE_QUEEN = 10"
| "pieceIndex ENGINE_KING = 11"
| "pieceIndex NONE = 12"

definition PIECE_VALUES :: "int list" where
  "PIECE_VALUES = [100, 350, 400, 500, 800, 0, 100, 350, 400, 500, 800, 0]"

definition INITIAL_BOARD :: "PieceType list" where
  "INITIAL_BOARD =
    [ENGINE_ROOK, ENGINE_KNIGHT, ENGINE_BISHOP,
     (if ENGINE_IS_WHITE then ENGINE_KING else ENGINE_QUEEN),
     (if ENGINE_IS_WHITE then ENGINE_QUEEN else ENGINE_KING),
     ENGINE_BISHOP, ENGINE_KNIGHT, ENGINE_ROOK,
     ENGINE_PAWN, ENGINE_PAWN, ENGINE_PAWN, ENGINE_PAWN,
     ENGINE_PAWN, ENGINE_PAWN, ENGINE_PAWN, ENGINE_PAWN,
     NONE, NONE, NONE, NONE, NONE, NONE, NONE, NONE,
     NONE, NONE, NONE, NONE, NONE, NONE, NONE, NONE,
     NONE, NONE, NONE, NONE, NONE, NONE, NONE, NONE,
     NONE, NONE, NONE, NONE, NONE, NONE, NONE, NONE,
     PLAYER_PAWN, PLAYER_PAWN, PLAYER_PAWN, PLAYER_PAWN,
     PLAYER_PAWN, PLAYER_PAWN, PLAYER_PAWN, PLAYER_PAWN,
     PLAYER_ROOK, PLAYER_KNIGHT, PLAYER_BISHOP,
     (if ENGINE_IS_WHITE then PLAYER_KING else PLAYER_QUEEN),
     (if ENGINE_IS_WHITE then PLAYER_QUEEN else PLAYER_KING),
     PLAYER_BISHOP, PLAYER_KNIGHT, PLAYER_ROOK]"

definition MAX_EVAL :: int where
  "MAX_EVAL = 32768"

definition MIN_EVAL :: int where
  "MIN_EVAL = - MAX_EVAL"

definition RANK0 :: bitboard where "RANK0 = 0xFF"
definition RANK1 :: bitboard where "RANK1 = push_bit 8 RANK0"
definition RANK2 :: bitboard where "RANK2 = push_bit 8 RANK1"
definition RANK3 :: bitboard where "RANK3 = push_bit 8 RANK2"
definition RANK4 :: bitboard where "RANK4 = push_bit 8 RANK3"
definition RANK5 :: bitboard where "RANK5 = push_bit 8 RANK4"
definition RANK6 :: bitboard where "RANK6 = push_bit 8 RANK5"
definition RANK7 :: bitboard where "RANK7 = push_bit 8 RANK6"

definition FILE0 :: bitboard where "FILE0 = 0x0101010101010101"
definition FILE7 :: bitboard where "FILE7 = push_bit 7 FILE0"

definition PLAYER_KINGSIDE_CASTLE :: bitboard where
  "PLAYER_KINGSIDE_CASTLE = (if ENGINE_IS_WHITE then 0xE00000000000000 else 0x7000000000000000)"
definition ENGINE_KINGSIDE_CASTLE :: bitboard where
  "ENGINE_KINGSIDE_CASTLE = (if ENGINE_IS_WHITE then 0x00000000000000E else 0x0000000000000070)"
definition PLAYER_QUEENSIDE_CASTLE :: bitboard where
  "PLAYER_QUEENSIDE_CASTLE = (if ENGINE_IS_WHITE then 0x3800000000000000 else 0x1C00000000000000)"
definition ENGINE_QUEENSIDE_CASTLE :: bitboard where
  "ENGINE_QUEENSIDE_CASTLE = (if ENGINE_IS_WHITE then 0x0000000000000038 else 0x000000000000001C)"

definition ENGINE_QUEENSIDE_DESTINATION :: bitboard where
  "ENGINE_QUEENSIDE_DESTINATION = (if ENGINE_IS_WHITE then 0x0000000000000020 else 0x0000000000000004)"
definition ENGINE_KINGSIDE_DESTINATION :: bitboard where
  "ENGINE_KINGSIDE_DESTINATION = (if ENGINE_IS_WHITE then 0x0000000000000002 else 0x0000000000000040)"
definition PLAYER_KINGSIDE_DESTINATION :: bitboard where
  "PLAYER_KINGSIDE_DESTINATION = (if ENGINE_IS_WHITE then 0x0200000000000000 else 0x4000000000000000)"
definition PLAYER_QUEENSIDE_DESTINATION :: bitboard where
  "PLAYER_QUEENSIDE_DESTINATION = (if ENGINE_IS_WHITE then 0x2000000000000000 else 0x0400000000000000)"

definition PLAYER_KINGSIDE_ROOK :: bitboard where
  "PLAYER_KINGSIDE_ROOK = (if ENGINE_IS_WHITE then 0x0100000000000000 else 0x8000000000000000)"
definition ENGINE_KINGSIDE_ROOK :: bitboard where
  "ENGINE_KINGSIDE_ROOK = (if ENGINE_IS_WHITE then 0x0000000000000001 else 0x0000000000000080)"
definition PLAYER_QUEENSIDE_ROOK :: bitboard where
  "PLAYER_QUEENSIDE_ROOK = (if ENGINE_IS_WHITE then 0x8000000000000000 else 0x0100000000000000)"
definition ENGINE_QUEENSIDE_ROOK :: bitboard where
  "ENGINE_QUEENSIDE_ROOK = (if ENGINE_IS_WHITE then 0x0000000000000080 else 0x0000000000000001)"

definition CENTER_16_SQUARES :: bitboard where "CENTER_16_SQUARES = 0x00003C3C3C3C0000"
definition CENTER_4_SQUARES :: bitboard where "CENTER_4_SQUARES = 0x0000001818000000"
definition OUTER_SQUARES :: bitboard where "OUTER_SQUARES = 0xFF818181818181FF"
definition FILLED_BOARD :: bitboard where "FILLED_BOARD = 0xFFFFFFFFFFFFFFFF"
definition ENGINE_ADVANCED_PAWNS :: bitboard where "ENGINE_ADVANCED_PAWNS = 0x00003C3C3C000000"
definition PLAYER_ADVANCED_PAWNS :: bitboard where "PLAYER_ADVANCED_PAWNS = 0x0000003C3C3C0000"
definition PAWN_CENTER :: bitboard where "PAWN_CENTER = 0x0000003C3C000000"

definition KNIGHT_MOVES :: "bitboard list" where
  "KNIGHT_MOVES =
    [0x20400, 0x50800, 0xa1100, 0x142200, 0x284400, 0x508800, 0xa01000, 0x402000,
     0x2040004, 0x5080008, 0xa110011, 0x14220022, 0x28440044, 0x50880088, 0xa0100010, 0x40200020,
     0x204000402, 0x508000805, 0xa1100110a, 0x1422002214, 0x2844004428, 0x5088008850,
     0xa0100010a0, 0x4020002040,
     0x20400040200, 0x50800080500, 0xa1100110a00, 0x142200221400, 0x284400442800,
     0x508800885000, 0xa0100010a000, 0x402000204000,
     0x2040004020000, 0x5080008050000, 0xa1100110a0000, 0x14220022140000, 0x28440044280000,
     0x50880088500000, 0xa0100010a00000, 0x40200020400000,
     0x204000402000000, 0x508000805000000, 0xa1100110a000000, 0x1422002214000000,
     0x2844004428000000, 0x5088008850000000, 0xa0100010a0000000, 0x4020002040000000,
     0x400040200000000, 0x800080500000000, 0x1100110a00000000, 0x2200221400000000,
     0x4400442800000000, 0x8800885000000000, 0x100010a000000000, 0x2000204000000000,
     0x4020000000000, 0x8050000000000, 0x110a0000000000, 0x22140000000000, 0x44280000000000,
     0x88500000000000, 0x10a00000000000, 0x20400000000000]"

definition KING_MOVES :: "bitboard list" where
  "KING_MOVES =
    [0x302, 0x705, 0xe0a, 0x1c14, 0x3828, 0x7050, 0xe0a0, 0xc040,
     0x30203, 0x70507, 0xe0a0e, 0x1c141c, 0x382838, 0x705070, 0xe0a0e0, 0xc040c0,
     0x3020300, 0x7050700, 0xe0a0e00, 0x1c141c00, 0x38283800, 0x70507000, 0xe0a0e000, 0xc040c000,
     0x302030000, 0x705070000, 0xe0a0e0000, 0x1c141c0000, 0x3828380000, 0x7050700000,
     0xe0a0e00000, 0xc040c00000,
     0x30203000000, 0x70507000000, 0xe0a0e000000, 0x1c141c000000, 0x382838000000,
     0x705070000000, 0xe0a0e0000000, 0xc040c0000000,
     0x3020300000000, 0x7050700000000, 0xe0a0e00000000, 0x1c141c00000000, 0x38283800000000,
     0x70507000000000, 0xe0a0e000000000, 0xc040c000000000,
     0x302030000000000, 0x705070000000000, 0xe0a0e0000000000, 0x1c141c0000000000,
     0x3828380000000000, 0x7050700000000000, 0xe0a0e00000000000, 0xc040c00000000000,
     0x203000000000000, 0x507000000000000, 0xa0e000000000000, 0x141c000000000000,
     0x2838000000000000, 0x5070000000000000, 0xa0e0000000000000, 0x40c0000000000000]"

section \<open>Bitboards.h\<close>

text \<open>
  \<open>_mm_tzcnt_64\<close>: the number of trailing zero bits, 64 for the empty board.
\<close>

fun tzcnt :: "nat \<Rightarrow> bitboard \<Rightarrow> nat" where
  "tzcnt 0 board = 0"
| "tzcnt (Suc n) board = (if bit board 0 then 0 else Suc (tzcnt n (drop_bit 1 board)))"

definition getLeastSquare :: "bitboard \<Rightarrow> nat" where
  "getLeastSquare board = tzcnt 64 board"

definition boardOf :: "nat \<Rightarrow> bitboard" where
  "boardOf square = push_bit square 1"

text \<open>
  \<open>popLeastBitboard\<close> returns the lowest set bit as a board and removes it from its
  argument; the pair is (returned board, updated argument).
\<close>

definition popLeastBitboard :: "bitboard \<Rightarrow> bitboard \<times> bitboard" where
  "popLeastBitboard board =
     (let leastBoard = board AND (NOT board + 1) in (leastBoard, board XOR leastBoard))"

definition popLeastSquare :: "bitboard \<Rightarrow> nat \<times> bitboard" where
  "popLeastSquare board =
     (let leastSquare = getLeastSquare board in (leastSquare, board XOR boardOf leastSquare))"

text \<open>\<open>__builtin_popcountll\<close>.\<close>

definition countSetBits :: "bitboard \<Rightarrow> nat" where
  "countSetBits board = length (filter (bit board) [0..<64])"

section \<open>Board.h\<close>

text \<open>
  \<open>Position::pieces\<close> is an array of twelve bitboards indexed by \<open>PieceType\<close>; it is
  modelled as a function on \<open>PieceType\<close>. Index \<open>NONE\<close> is past the end of the array:
  the source never reads or writes it in a defined execution, and the model reports
  such an access as \<open>None\<close>.
\<close>

record Position =
  pieces :: "PieceType \<Rightarrow> bitboard"
  playerCastleQueenside :: bool
  playerCastleKingside :: bool
  engineCastleQueenside :: bool
  engineCastleKingside :: bool
  enPassantCapture :: bitboard

datatype MoveType =
  QUEEN_PROMOTION | KNIGHT_PROMOTION | BISHOP_PROMOTION | ROOK_PROMOTION | EN_PASSANT | NORMAL

fun moveTypeIndex :: "MoveType \<Rightarrow> nat" where
  "moveTypeIndex QUEEN_PROMOTION = 0"
| "moveTypeIndex KNIGHT_PROMOTION = 1"
| "moveTypeIndex BISHOP_PROMOTION = 2"
| "moveTypeIndex ROOK_PROMOTION = 3"
| "moveTypeIndex EN_PASSANT = 4"
| "moveTypeIndex NORMAL = 5"

text \<open>
  \<open>Board::Move\<close>. The fields \<open>type\<close>, \<open>from\<close> and \<open>to\<close> of the source are named
  \<open>mtype\<close>, \<open>mfrom\<close> and \<open>mto\<close> here.
\<close>

record Move =
  mtype :: MoveType
  mfrom :: nat
  mto :: nat
  moving :: PieceType
  captured :: PieceType

record Board =
  position :: Position
  engineToMove :: bool
  enginePieces :: bitboard
  playerOrEmpty :: bitboard
  playerPieces :: bitboard
  engineOrEmpty :: bitboard
  emptySquares :: bitboard
  occupiedSquares :: bitboard

definition update :: "Board \<Rightarrow> Board" where
  "update board =
     (let p = pieces (position board);
          engineP = p ENGINE_PAWN OR p ENGINE_KNIGHT OR p ENGINE_BISHOP OR p ENGINE_ROOK
                    OR p ENGINE_QUEEN OR p ENGINE_KING;
          playerP = p PLAYER_PAWN OR p PLAYER_KNIGHT OR p PLAYER_BISHOP OR p PLAYER_ROOK
                    OR p PLAYER_QUEEN OR p PLAYER_KING;
          occupied = engineP OR playerP;
          empty = NOT occupied
      in board\<lparr>enginePieces := engineP,
               playerPieces := playerP,
               occupiedSquares := occupied,
               emptySquares := empty,
               playerOrEmpty := playerP OR empty,
               engineOrEmpty := engineP OR empty\<rparr>)"

text \<open>
  The type lookups scan the bitboards of one side in enumerator order. Reaching
  \<open>assert(false)\<close> is the result \<open>None\<close>.
\<close>

fun firstPieceOn :: "Position \<Rightarrow> bitboard \<Rightarrow> PieceType list \<Rightarrow> PieceType option" where
  "firstPieceOn p squareMask [] = None"
| "firstPieceOn p squareMask (t # ts) =
     (if pieces p t AND squareMask \<noteq> 0 then Some t else firstPieceOn p squareMask ts)"

definition playerTypes :: "PieceType list" where
  "playerTypes =
     [PLAYER_PAWN, PLAYER_KNIGHT, PLAYER_BISHOP, PLAYER_ROOK, PLAYER_QUEEN, PLAYER_KING]"

definition engineTypes :: "PieceType list" where
  "engineTypes =
     [ENGINE_PAWN, ENGINE_KNIGHT, ENGINE_BISHOP, ENGINE_ROOK, ENGINE_QUEEN, ENGINE_KING]"

definition getPlayerPieceType :: "Board \<Rightarrow> nat \<Rightarrow> PieceType option" where
  "getPlayerPieceType board square =
     (let squareMask = boardOf square in
      if emptySquares board AND squareMask \<noteq> 0 then Some NONE
      else firstPieceOn (position board) squareMask playerTypes)"

definition getEnginePieceType :: "Board \<Rightarrow> nat \<Rightarrow> PieceType option" where
  "getEnginePieceType board square =
     (let squareMask = boardOf square in
      if emptySquares board AND squareMask \<noteq> 0 then Some NONE
      else firstPieceOn (position board) squareMask engineTypes)"

definition getPieceType :: "Board \<Rightarrow> nat \<Rightarrow> PieceType option" where
  "getPieceType board square =
     (let squareMask = boardOf square in
      if emptySquares board AND squareMask \<noteq> 0 then Some NONE
      else if playerPieces board AND squareMask \<noteq> 0 then getPlayerPieceType board square
      else if enginePieces board AND squareMask \<noteq> 0 then getEnginePieceType board square
      else None)"

text \<open>
  \<open>makeMove<isEngine>\<close>, with the template parameter as the first argument. The source
  indexes \<open>position.pieces\<close> with \<open>move.moving\<close> and shifts by \<open>move.from\<close> and
  \<open>move.to\<close> unchecked; a move outside these ranges is the result \<open>None\<close>.
\<close>

definition promotedType :: "bool \<Rightarrow> MoveType \<Rightarrow> PieceType" where
  "promotedType isEngine t =
     (if t = QUEEN_PROMOTION then (if isEngine then ENGINE_QUEEN else PLAYER_QUEEN)
      else if t = ROOK_PROMOTION then (if isEngine then ENGINE_ROOK else PLAYER_ROOK)
      else if t = BISHOP_PROMOTION then (if isEngine then ENGINE_BISHOP else PLAYER_BISHOP)
      else (if isEngine then ENGINE_KNIGHT else PLAYER_KNIGHT))"

text \<open>Step 1: remove the piece from its square and put it (or the promoted piece) down.\<close>

definition placeMoving :: "bool \<Rightarrow> Move \<Rightarrow> Position \<Rightarrow> Position" where
  "placeMoving isEngine move p =
     (let squareTo = boardOf (mto move);
          squareFrom = boardOf (mfrom move);
          p1 = p\<lparr>pieces := (pieces p)(moving move := pieces p (moving move) XOR squareFrom)\<rparr>
      in if moveTypeIndex (mtype move) < 4
         then (let t = promotedType isEngine (mtype move)
               in p1\<lparr>pieces := (pieces p1)(t := pieces p1 t OR squareTo)\<rparr>)
         else p1\<lparr>pieces := (pieces p1)(moving move := pieces p1 (moving move) OR squareTo)\<rparr>)"

text \<open>Step 2: remove a captured piece; capturing a rook on its corner revokes castling.\<close>

definition removeCaptured :: "bool \<Rightarrow> Move \<Rightarrow> bitboard \<Rightarrow> Position \<Rightarrow> Position" where
  "removeCaptured isEngine move enPassant p =
     (if captured move \<noteq> NONE then
        (let squareTo = boardOf (mto move);
             p1 = p\<lparr>pieces := (pieces p)(captured move :=
                     pieces p (captured move) XOR
                       (if mtype move = EN_PASSANT then enPassant else squareTo))\<rparr>
         in if captured move = (if isEngine then PLAYER_ROOK else ENGINE_ROOK) then
              (let p2 = (if (if isEngine then playerCastleKingside p1 else engineCastleKingside p1)
                            \<and> squareTo AND (if isEngine then PLAYER_KINGSIDE_ROOK
                                            else ENGINE_KINGSIDE_ROOK) \<noteq> 0
                         then (if isEngine then p1\<lparr>playerCastleKingside := False\<rparr>
                               else p1\<lparr>engineCastleKingside := False\<rparr>)
                         else p1)
               in if (if isEngine then playerCastleQueenside p2 else engineCastleQueenside p2)
                     \<and> squareTo AND (if isEngine then PLAYER_QUEENSIDE_ROOK
                                     else ENGINE_QUEENSIDE_ROOK) \<noteq> 0
                  then (if isEngine then p2\<lparr>playerCastleQueenside := False\<rparr>
                        else p2\<lparr>engineCastleQueenside := False\<rparr>)
                  else p2)
            else p1)
      else p)"

text \<open>Step 3, king branch: move the rook of a castle and drop both castling rights.\<close>

definition moveKing :: "bool \<Rightarrow> Move \<Rightarrow> Position \<Rightarrow> Position" where
  "moveKing isEngine move p =
     (if (if isEngine then engineCastleKingside p \<or> engineCastleQueenside p
          else playerCastleKingside p \<or> playerCastleQueenside p) then
        (let squareTo = boardOf (mto move);
             rook = (if isEngine then ENGINE_ROOK else PLAYER_ROOK);
             p1 = (if squareTo AND (if isEngine then ENGINE_KINGSIDE_DESTINATION
                                    else PLAYER_KINGSIDE_DESTINATION) \<noteq> 0
                   then (let r1 = pieces p rook XOR (if isEngine then ENGINE_KINGSIDE_ROOK
                                                     else PLAYER_KINGSIDE_ROOK);
                             r2 = r1 OR (if ENGINE_IS_WHITE then push_bit 1 squareTo
                                         else drop_bit 1 squareTo)
                         in p\<lparr>pieces := (pieces p)(rook := r2)\<rparr>)
                   else p);
             p2 = (if squareTo AND (if isEngine then ENGINE_QUEENSIDE_DESTINATION
                                    else PLAYER_QUEENSIDE_DESTINATION) \<noteq> 0
                   then (let r1 = pieces p1 rook XOR (if isEngine then ENGINE_QUEENSIDE_ROOK
                                                      else PLAYER_QUEENSIDE_ROOK);
                             r2 = r1 OR (if ENGINE_IS_WHITE then drop_bit 1 squareTo
                                         else push_bit 1 squareTo)
                         in p1\<lparr>pieces := (pieces p1)(rook := r2)\<rparr>)
                   else p1)
         in if isEngine then p2\<lparr>engineCastleKingside := False, engineCastleQueenside := False\<rparr>
            else p2\<lparr>playerCastleKingside := False, playerCastleQueenside := False\<rparr>)
      else p)"

text \<open>Step 3, rook branch: a rook leaving its corner drops that castling right.\<close>

definition moveRook :: "bool \<Rightarrow> Move \<Rightarrow> Position \<Rightarrow> Position" where
  "moveRook isEngine move p =
     (let squareFrom = boardOf (mfrom move);
          p1 = (if (if isEngine then engineCastleKingside p else playerCastleKingside p)
                   \<and> squareFrom AND (if isEngine then ENGINE_KINGSIDE_ROOK
                                     else PLAYER_KINGSIDE_ROOK) \<noteq> 0
                then (if isEngine then p\<lparr>engineCastleKingside := False\<rparr>
                      else p\<lparr>playerCastleKingside := False\<rparr>)
                else p)
      in if (if isEngine then engineCastleQueenside p1 else playerCastleQueenside p1)
            \<and> squareFrom AND (if isEngine then ENGINE_QUEENSIDE_ROOK
                              else PLAYER_QUEENSIDE_ROOK) \<noteq> 0
         then (if isEngine then p1\<lparr>engineCastleQueenside := False\<rparr>
               else p1\<lparr>playerCastleQueenside := False\<rparr>)
         else p1)"

text \<open>
  Step 3, pawn branch: a double push next to an enemy pawn sets \<open>enPassantCapture\<close>.
  \<open>abs(move.to - move.from)\<close> is computed on \<open>int\<close>.
\<close>

definition movePawn :: "bool \<Rightarrow> Move \<Rightarrow> Position \<Rightarrow> Position" where
  "movePawn isEngine move p =
     (let squareTo = boardOf (mto move) in
      if \<bar>int (mto move) - int (mfrom move)\<bar> = 16
         \<and> (push_bit 1 squareTo OR drop_bit 1 squareTo)
             AND (if isEngine then RANK3 else RANK4)
             AND pieces p (if isEngine then PLAYER_PAWN else ENGINE_PAWN) \<noteq> 0
      then p\<lparr>enPassantCapture := squareTo\<rparr>
      else p)"

definition makeMove :: "bool \<Rightarrow> Move \<Rightarrow> Board \<Rightarrow> Board option" where
  "makeMove isEngine move board =
     (if moving move = NONE \<or> 64 \<le> mfrom move \<or> 64 \<le> mto move then None
      else
        (let enPassant = enPassantCapture (position board);
             p0 = (position board)\<lparr>enPassantCapture := 0\<rparr>;
             p1 = placeMoving isEngine move p0;
             p2 = removeCaptured isEngine move enPassant p1;
             p3 = (if moving move = (if isEngine then ENGINE_KING else PLAYER_KING)
                   then moveKing isEngine move p2
                   else if moving move = (if isEngine then ENGINE_ROOK else PLAYER_ROOK)
                   then moveRook isEngine move p2
                   else if moving move = (if isEngine then ENGINE_PAWN else PLAYER_PAWN)
                   then movePawn isEngine move p2
                   else p2);
             board1 = update (board\<lparr>position := p3\<rparr>)
         in Some (board1\<lparr>engineToMove := \<not> engineToMove board1\<rparr>)))"

section \<open>Board.cpp\<close>

text \<open>The constructor: the loop over the 64 squares of \<open>INITIAL_BOARD\<close>, then \<open>update\<close>.\<close>

fun placeInitial :: "(PieceType \<Rightarrow> bitboard) \<Rightarrow> nat \<Rightarrow> PieceType list \<Rightarrow> PieceType \<Rightarrow> bitboard" where
  "placeInitial ps square [] = ps"
| "placeInitial ps square (piece # rest) =
     placeInitial (if piece \<noteq> NONE then ps(piece := ps piece OR boardOf square) else ps)
       (Suc square) rest"

definition newBoard :: Board where
  "newBoard =
     (update
        \<lparr>position =
           \<lparr>pieces = placeInitial (\<lambda>_. 0) 0 INITIAL_BOARD,
            playerCastleQueenside = True,
            playerCastleKingside = True,
            engineCastleQueenside = True,
            engineCastleKingside = True,
            enPassantCapture = 0\<rparr>,
         engineToMove = False,
         enginePieces = 0, playerOrEmpty = 0, playerPieces = 0,
         engineOrEmpty = 0, emptySquares = 0, occupiedSquares = 0\<rparr>)
       \<lparr>engineToMove := ENGINE_IS_WHITE\<rparr>"

section \<open>Loops over the set bits of a bitboard\<close>

text \<open>
  The generator's loops have the shape
  \<^verbatim>\<open>while (moves) { uint8_t to = popLeastSquare(moves); ... }\<close>.
  \<open>squaresOf\<close> is the sequence of squares such a loop visits.
\<close>

lemma tzcnt_bit: "\<exists>k<n. bit board k \<Longrightarrow> bit board (tzcnt n board) \<and> tzcnt n board < n"
proof (induction n arbitrary: board)
  case 0
  then show ?case by simp
next
  case (Suc n)
  show ?case
  proof (cases "bit board 0")
    case True
    then show ?thesis by simp
  next
    case False
    from Suc.prems obtain k where k: "k < Suc n" "bit board k" by blast
    with False obtain j where j: "k = Suc j" by (cases k) auto
    with k have "\<exists>k<n. bit (drop_bit 1 board) k"
      by (auto simp: bit_drop_bit_eq intro!: exI[of _ j])
    from Suc.IH[OF this] False show ?thesis
      by (simp add: bit_drop_bit_eq)
  qed
qed

lemma nonzero_has_bit: "(board::bitboard) \<noteq> 0 \<Longrightarrow> \<exists>k<64. bit board k"
proof -
  assume "board \<noteq> 0"
  then obtain k where k: "bit board k" by (auto simp: bit_eq_iff)
  then have "k < 64" using bit_imp_le_length[OF k] by simp
  with k show ?thesis by blast
qed

lemma getLeastSquare_bit:
  "board \<noteq> 0 \<Longrightarrow> bit board (getLeastSquare board) \<and> getLeastSquare board < 64"
  unfolding getLeastSquare_def by (rule tzcnt_bit) (rule nonzero_has_bit)

lemma clear_bit_count:
  assumes "bit (w::bitboard) k"
  shows "card {n. bit (w XOR boardOf k) n} < card {n. bit w n}"
proof -
  have "{n. bit (w XOR boardOf k) n} = {n. bit w n} - {k}"
    using assms by (auto simp: boardOf_def bit_simps dest: bit_imp_le_length)
  moreover have "k \<in> {n. bit w n}" using assms by simp
  ultimately show ?thesis
    using card_Diff1_less[of "{n. bit w n}" k] by simp
qed

function squaresOf :: "bitboard \<Rightarrow> nat list" where
  "squaresOf board =
     (if board = 0 then []
      else fst (popLeastSquare board) # squaresOf (snd (popLeastSquare board)))"
  by pat_completeness auto
termination
proof (relation "measure (\<lambda>board. card {n. bit board n})")
  show "wf (measure (\<lambda>board::bitboard. card {n. bit board n}))" by simp
next
  fix board :: bitboard
  assume "board \<noteq> 0"
  then have "bit board (getLeastSquare board)" by (simp add: getLeastSquare_bit)
  then show "(snd (popLeastSquare board), board) \<in> measure (\<lambda>board. card {n. bit board n})"
    by (simp add: popLeastSquare_def Let_def clear_bit_count)
qed

declare squaresOf.simps [simp del]

section \<open>MoveGen.cpp: the slow ray computations\<close>

text \<open>
  One iteration of a ray loop of \<open>getRookAttacks\<close> and \<open>getBishopAttacks\<close>: the attacked
  square is added when \<open>captures\<close> is set, the loop breaks on a blocker (result
  \<open>(attacks, True)\<close>), and otherwise the square is added.
\<close>

definition rayStep :: "bitboard \<Rightarrow> bool \<Rightarrow> nat \<Rightarrow> bitboard \<Rightarrow> bitboard \<times> bool" where
  "rayStep blockers captures square attacks =
     (let attack = boardOf square;
          attacks1 = (if captures then attacks OR attack else attacks)
      in if attack AND blockers \<noteq> 0 then (attacks1, True) else (attacks1 OR attack, False))"

text \<open>
  The \<open>for\<close> loops of \<open>getRookAttacks\<close> run over the squares of one ray, given here
  as the list of the loop's successive squares.
\<close>

fun walkRay :: "bitboard \<Rightarrow> bool \<Rightarrow> nat list \<Rightarrow> bitboard \<Rightarrow> bitboard" where
  "walkRay blockers captures [] attacks = attacks"
| "walkRay blockers captures (square # rest) attacks =
     (case rayStep blockers captures square attacks of
        (attacks1, stop) \<Rightarrow> if stop then attacks1 else walkRay blockers captures rest attacks1)"

definition northSquares :: "nat \<Rightarrow> nat list" where
  "northSquares from = map (\<lambda>row. row * 8 + from mod 8) (rev [0..<from div 8])"

definition eastSquares :: "nat \<Rightarrow> nat list" where
  "eastSquares from = map (\<lambda>col. (from div 8) * 8 + col) [from mod 8 + 1..<8]"

definition southSquares :: "nat \<Rightarrow> nat list" where
  "southSquares from = map (\<lambda>row. row * 8 + from mod 8) [from div 8 + 1..<8]"

definition westSquares :: "nat \<Rightarrow> nat list" where
  "westSquares from = map (\<lambda>col. (from div 8) * 8 + col) (rev [0..<from mod 8])"

definition getRookAttacks :: "nat \<Rightarrow> bitboard \<Rightarrow> bool \<Rightarrow> bitboard" where
  "getRookAttacks from blockers captures =
     walkRay blockers captures (westSquares from)
       (walkRay blockers captures (southSquares from)
         (walkRay blockers captures (eastSquares from)
           (walkRay blockers captures (northSquares from) 0)))"

definition getRookBlockers :: "nat \<Rightarrow> bitboard" where
  "getRookBlockers from =
     (let row = from div 8;
          col = from mod 8;
          endpoints = boardOf col OR boardOf (row * 8 + 7) OR boardOf (56 + col)
                      OR boardOf (from - col)
      in getRookAttacks from endpoints False)"

text \<open>
  The \<open>while (isOnBoard(row, col))\<close> loops of \<open>getBishopAttacks\<close>; \<open>rowUp\<close> and
  \<open>colUp\<close> say whether the loop increments or decrements \<open>row\<close> and \<open>col\<close>.
\<close>

definition isOnBoard :: "int \<Rightarrow> int \<Rightarrow> bool" where
  "isOnBoard row col = (row \<ge> 0 \<and> row < 8 \<and> col \<ge> 0 \<and> col < 8)"

function slide :: "bool \<Rightarrow> bool \<Rightarrow> bitboard \<Rightarrow> bool \<Rightarrow> int \<Rightarrow> int \<Rightarrow> bitboard \<Rightarrow> bitboard" where
  "slide rowUp colUp blockers captures row col attacks =
     (if isOnBoard row col then
        (case rayStep blockers captures (nat (row * 8 + col)) attacks of
           (attacks1, stop) \<Rightarrow>
             if stop then attacks1
             else slide rowUp colUp blockers captures
                    (if rowUp then row + 1 else row - 1) (if colUp then col + 1 else col - 1)
                    attacks1)
      else attacks)"
  by pat_completeness auto
termination
  by (relation "measure (\<lambda>(rowUp, colUp, blockers, captures, row, col, attacks).
                  nat (if rowUp then 8 - row else row + 1))")
     (auto simp: isOnBoard_def)

declare slide.simps [simp del]

definition getBishopAttacks :: "nat \<Rightarrow> bitboard \<Rightarrow> bool \<Rightarrow> bitboard" where
  "getBishopAttacks from blockers captures =
     (let r = int (from div 8); c = int (from mod 8);
          ne = slide False True blockers captures (r - 1) (c + 1) 0;
          se = slide True True blockers captures (r + 1) (c + 1) ne;
          sw = slide True False blockers captures (r + 1) (c - 1) se
      in slide False False blockers captures (r - 1) (c - 1) sw)"

definition getBishopBlockers :: "nat \<Rightarrow> bitboard" where
  "getBishopBlockers from = getBishopAttacks from OUTER_SQUARES False"

section \<open>MoveGen.cpp: the attack tables\<close>

text \<open>
  \<open>cardinals[square].blockers\<close> and \<open>ordinals[square].blockers\<close>, as the constructor
  fills them in.
\<close>

definition cardinalBlockers :: "nat \<Rightarrow> bitboard" where
  "cardinalBlockers square = getRookBlockers square"

definition ordinalBlockers :: "nat \<Rightarrow> bitboard" where
  "ordinalBlockers square = getBishopBlockers square"

text \<open>
  The table reads \<open>cardinalAttacks[square][blockers * cardinals[square].magic >> 52]\<close>
  and \<open>ordinalAttacks[square][blockers * ordinals[square].magic >> 55]\<close>. The magic
  numbers come out of \<open>rand()\<close> at startup, so the tables are not fixed by the source;
  every call site passes \<open>blockers\<close> that lie inside the square's blocker mask, and
  for such an index each table accepted by \<open>getMagicNumber\<close> holds the ray computation
  of the same blockers (this is proved below, for \<open>getMagicNumber\<close> as the source has
  it). The generator is therefore modelled on the value the table holds.
\<close>

definition cardinalAttacks :: "nat \<Rightarrow> bitboard \<Rightarrow> bitboard" where
  "cardinalAttacks square blockers = getRookAttacks square blockers True"

definition ordinalAttacks :: "nat \<Rightarrow> bitboard \<Rightarrow> bitboard" where
  "ordinalAttacks square blockers = getBishopAttacks square blockers True"

section \<open>MoveGen.cpp: legality masks\<close>

text \<open>The generator's own fields besides the board and the move list.\<close>

record MoveGen =
  blockerSquares :: bitboard
  cardinalPins :: bitboard
  ordinalPins :: bitboard

definition enemyCardinals :: "bool \<Rightarrow> Position \<Rightarrow> bitboard" where
  "enemyCardinals isEngine p =
     (if isEngine then pieces p PLAYER_QUEEN OR pieces p PLAYER_ROOK
      else pieces p ENGINE_QUEEN OR pieces p ENGINE_ROOK)"

definition enemyOrdinals :: "bool \<Rightarrow> Position \<Rightarrow> bitboard" where
  "enemyOrdinals isEngine p =
     (if isEngine then pieces p PLAYER_QUEEN OR pieces p PLAYER_BISHOP
      else pieces p ENGINE_QUEEN OR pieces p ENGINE_BISHOP)"

text \<open>The two pawn-attack terms shared by \<open>isSafeSquare\<close> and \<open>getBlockerSquares\<close>.\<close>

definition pawnAttackers :: "bool \<Rightarrow> Position \<Rightarrow> bitboard \<Rightarrow> bitboard" where
  "pawnAttackers isEngine p attacked =
     (if isEngine then push_bit 9 (attacked AND NOT FILE7) AND pieces p PLAYER_PAWN
      else drop_bit 9 (attacked AND NOT FILE0) AND pieces p ENGINE_PAWN)
     OR
     (if isEngine then push_bit 7 (attacked AND NOT FILE0) AND pieces p PLAYER_PAWN
      else drop_bit 7 (attacked AND NOT FILE7) AND pieces p ENGINE_PAWN)"

definition isSafeSquare :: "bool \<Rightarrow> Board \<Rightarrow> nat \<Rightarrow> bool" where
  "isSafeSquare isEngine board square =
     (let p = position board;
          attacked = boardOf square;
          king = pieces p (if isEngine then ENGINE_KING else PLAYER_KING);
          cBlockers = occupiedSquares board AND cardinalBlockers square AND NOT king;
          oBlockers = occupiedSquares board AND ordinalBlockers square AND NOT king;
          cardinalAttackers = cardinalAttacks square cBlockers AND enemyCardinals isEngine p;
          ordinalAttackers = ordinalAttacks square oBlockers AND enemyOrdinals isEngine p;
          attackers = cardinalAttackers OR ordinalAttackers
            OR (KNIGHT_MOVES ! square
                 AND (if isEngine then pieces p PLAYER_KNIGHT else pieces p ENGINE_KNIGHT))
            OR (KING_MOVES ! square
                 AND (if isEngine then pieces p PLAYER_KING else pieces p ENGINE_KING))
            OR pawnAttackers isEngine p attacked
      in attackers = 0)"

text \<open>
  \<open>isKingInCheck\<close> reads the tables at the king's square: with no king on the board
  that square is 64 and the reads are out of bounds; the search calls it only after a
  generation for the same side, which the model guards (see \<open>generateMoves\<close>).
\<close>

definition isKingInCheck :: "bool \<Rightarrow> Board \<Rightarrow> bool" where
  "isKingInCheck isEngine board =
     (\<not> isSafeSquare isEngine board
          (getLeastSquare (pieces (position board) (if isEngine then ENGINE_KING else PLAYER_KING))))"

definition getBlockerSquares :: "bool \<Rightarrow> Board \<Rightarrow> bitboard" where
  "getBlockerSquares isEngine board =
     (let p = position board;
          king = pieces p (if isEngine then ENGINE_KING else PLAYER_KING);
          kingSquare = getLeastSquare king;
          cBlockers = occupiedSquares board AND cardinalBlockers kingSquare;
          oBlockers = occupiedSquares board AND ordinalBlockers kingSquare;
          cardinalAttackRays = cardinalAttacks kingSquare cBlockers;
          ordinalAttackRays = ordinalAttacks kingSquare oBlockers;
          cardinalAttackers = cardinalAttackRays AND enemyCardinals isEngine p;
          ordinalAttackers = ordinalAttackRays AND enemyOrdinals isEngine p;
          attackers = cardinalAttackers OR ordinalAttackers
            OR (KNIGHT_MOVES ! kingSquare
                 AND (if isEngine then pieces p PLAYER_KNIGHT else pieces p ENGINE_KNIGHT))
            OR pawnAttackers isEngine p king
      in if attackers = 0 then FILLED_BOARD
         else if countSetBits attackers = 1 then
           (if cardinalAttackers \<noteq> 0 then
              (let attacker = getLeastSquare cardinalAttackers;
                   cBlockers1 = occupiedSquares board AND cardinalBlockers attacker
               in (cardinalAttackRays AND cardinalAttacks attacker cBlockers1) OR attackers)
            else if ordinalAttackers \<noteq> 0 then
              (let attacker = getLeastSquare ordinalAttackers;
                   oBlockers1 = occupiedSquares board AND ordinalBlockers attacker
               in (ordinalAttackRays AND ordinalAttacks attacker oBlockers1) OR attackers)
            else attackers)
         else 0)"

text \<open>One iteration of the \<open>while (pinning)\<close> loops.\<close>

definition ordinalPinStep :: "Board \<Rightarrow> bitboard \<Rightarrow> bitboard \<Rightarrow> bitboard \<Rightarrow> nat \<Rightarrow> bitboard" where
  "ordinalPinStep board possiblyPinned pins acc pinningSquare =
     (let oBlockers = occupiedSquares board AND ordinalBlockers pinningSquare
                      AND NOT possiblyPinned;
          pin = ordinalAttacks pinningSquare oBlockers
      in acc OR (pins AND pin) OR boardOf pinningSquare)"

definition getOrdinalPins :: "bool \<Rightarrow> Board \<Rightarrow> bitboard" where
  "getOrdinalPins isEngine board =
     (let p = position board;
          king = getLeastSquare (pieces p (if isEngine then ENGINE_KING else PLAYER_KING));
          oBlockers = occupiedSquares board AND ordinalBlockers king;
          possiblyPinned = ordinalAttacks king oBlockers
                           AND (if isEngine then enginePieces board else playerPieces board);
          oBlockers1 = oBlockers AND NOT possiblyPinned;
          pins = ordinalAttacks king oBlockers1;
          pinning = pins AND enemyOrdinals isEngine p
      in foldl (ordinalPinStep board possiblyPinned pins) 0 (squaresOf pinning))"

definition cardinalPinStep :: "Board \<Rightarrow> bitboard \<Rightarrow> bitboard \<Rightarrow> bitboard \<Rightarrow> nat \<Rightarrow> bitboard" where
  "cardinalPinStep board possiblyPinned pins acc pinningSquare =
     (let cBlockers = occupiedSquares board AND cardinalBlockers pinningSquare
                      AND NOT possiblyPinned;
          pin = cardinalAttacks pinningSquare cBlockers
      in acc OR (pins AND pin) OR boardOf pinningSquare)"

definition getCardinalPins :: "bool \<Rightarrow> Board \<Rightarrow> bitboard" where
  "getCardinalPins isEngine board =
     (let p = position board;
          king = getLeastSquare (pieces p (if isEngine then ENGINE_KING else PLAYER_KING));
          cBlockers = occupiedSquares board AND cardinalBlockers king;
          possiblyPinned = cardinalAttacks king cBlockers
                           AND (if isEngine then enginePieces board else playerPieces board);
          cBlockers1 = cBlockers AND NOT possiblyPinned;
          pins = cardinalAttacks king cBlockers1;
          pinning = pins AND enemyCardinals isEngine p
      in foldl (cardinalPinStep board possiblyPinned pins) 0 (squaresOf pinning))"

section \<open>MoveGen.cpp: move generation\<close>

text \<open>
  Each generator returns the moves it pushes onto \<open>generated\<close>, in order; \<open>None\<close>
  means that a type lookup ran into its \<open>assert(false)\<close>.
\<close>

definition captureType :: "bool \<Rightarrow> Board \<Rightarrow> nat \<Rightarrow> PieceType option" where
  "captureType isEngine board to =
     (if isEngine then getPlayerPieceType board to else getEnginePieceType board to)"

definition targets :: "bool \<Rightarrow> Board \<Rightarrow> bitboard" where
  "targets isEngine board = (if isEngine then playerOrEmpty board else engineOrEmpty board)"

definition pushMove :: "bool \<Rightarrow> Board \<Rightarrow> nat \<Rightarrow> PieceType \<Rightarrow> nat \<Rightarrow> Move option" where
  "pushMove isEngine board from piece to =
     (case captureType isEngine board to of
        None \<Rightarrow> None
      | Some c \<Rightarrow> Some \<lparr>mtype = NORMAL, mfrom = from, mto = to, moving = piece, captured = c\<rparr>)"

text \<open>\<^verbatim>\<open>while (moves) { to = popLeastSquare(moves); generated.push_back(...); }\<close>\<close>

definition pushMoves :: "bool \<Rightarrow> Board \<Rightarrow> nat \<Rightarrow> PieceType \<Rightarrow> bitboard \<Rightarrow> Move list option" where
  "pushMoves isEngine board from piece moves =
     those (map (pushMove isEngine board from piece) (squaresOf moves))"

definition collect :: "'a list option list \<Rightarrow> 'a list option" where
  "collect xs = map_option concat (those xs)"

definition queenMovesFrom :: "bool \<Rightarrow> Board \<Rightarrow> MoveGen \<Rightarrow> nat \<Rightarrow> Move list option" where
  "queenMovesFrom isEngine board gen from =
     (let queen = boardOf from;
          moves0 = (if queen AND NOT (cardinalPins gen) \<noteq> 0 then
                      (let m = ordinalAttacks from (occupiedSquares board AND ordinalBlockers from)
                       in if queen AND ordinalPins gen \<noteq> 0 then m AND ordinalPins gen else m)
                    else 0);
          moves1 = (if queen AND NOT (ordinalPins gen) \<noteq> 0 then
                      (let m = moves0 OR cardinalAttacks from
                                           (occupiedSquares board AND cardinalBlockers from)
                       in if queen AND cardinalPins gen \<noteq> 0 then m AND cardinalPins gen else m)
                    else moves0);
          moves = moves1 AND targets isEngine board AND blockerSquares gen
      in pushMoves isEngine board from (if isEngine then ENGINE_QUEEN else PLAYER_QUEEN) moves)"

text \<open>
  The queen loop pops with \<open>popLeastBitboard\<close> and takes \<open>getLeastSquare\<close> of the popped
  bit; it visits the same squares as the \<open>popLeastSquare\<close> loops, in the same order.
\<close>

definition generateQueenMoves :: "bool \<Rightarrow> Board \<Rightarrow> MoveGen \<Rightarrow> Move list option" where
  "generateQueenMoves isEngine board gen =
     collect (map (queenMovesFrom isEngine board gen)
       (squaresOf (pieces (position board) (if isEngine then ENGINE_QUEEN else PLAYER_QUEEN))))"

definition rookMovesFrom :: "bool \<Rightarrow> Board \<Rightarrow> MoveGen \<Rightarrow> nat \<Rightarrow> Move list option" where
  "rookMovesFrom isEngine board gen from =
     (let blockers = occupiedSquares board AND cardinalBlockers from;
          moves0 = cardinalAttacks from blockers AND targets isEngine board AND blockerSquares gen;
          moves = (if boardOf from AND cardinalPins gen \<noteq> 0 then moves0 AND cardinalPins gen
                   else moves0)
      in pushMoves isEngine board from (if isEngine then ENGINE_ROOK else PLAYER_ROOK) moves)"

definition generateRookMoves :: "bool \<Rightarrow> Board \<Rightarrow> MoveGen \<Rightarrow> Move list option" where
  "generateRookMoves isEngine board gen =
     collect (map (rookMovesFrom isEngine board gen)
       (squaresOf (pieces (position board) (if isEngine then ENGINE_ROOK else PLAYER_ROOK)
                   AND NOT (ordinalPins gen))))"

definition bishopMovesFrom :: "bool \<Rightarrow> Board \<Rightarrow> MoveGen \<Rightarrow> nat \<Rightarrow> Move list option" where
  "bishopMovesFrom isEngine board gen from =
     (let blockers = occupiedSquares board AND ordinalBlockers from;
          moves0 = ordinalAttacks from blockers AND targets isEngine board AND blockerSquares gen;
          moves = (if boardOf from AND ordinalPins gen \<noteq> 0 then moves0 AND ordinalPins gen
                   else moves0)
      in pushMoves isEngine board from (if isEngine then ENGINE_BISHOP else PLAYER_BISHOP) moves)"

definition generateBishopMoves :: "bool \<Rightarrow> Board \<Rightarrow> MoveGen \<Rightarrow> Move list option" where
  "generateBishopMoves isEngine board gen =
     collect (map (bishopMovesFrom isEngine board gen)
       (squaresOf (pieces (position board) (if isEngine then ENGINE_BISHOP else PLAYER_BISHOP)
                   AND NOT (cardinalPins gen))))"

definition knightMovesFrom :: "bool \<Rightarrow> Board \<Rightarrow> MoveGen \<Rightarrow> nat \<Rightarrow> Move list option" where
  "knightMovesFrom isEngine board gen from =
     (let moves = KNIGHT_MOVES ! from AND targets isEngine board AND blockerSquares gen
      in pushMoves isEngine board from (if isEngine then ENGINE_KNIGHT else PLAYER_KNIGHT) moves)"

definition generateKnightMoves :: "bool \<Rightarrow> Board \<Rightarrow> MoveGen \<Rightarrow> Move list option" where
  "generateKnightMoves isEngine board gen =
     collect (map (knightMovesFrom isEngine board gen)
       (squaresOf (pieces (position board) (if isEngine then ENGINE_KNIGHT else PLAYER_KNIGHT)
                   AND NOT (cardinalPins gen OR ordinalPins gen))))"

text \<open>The king: the loop that keeps the safe destinations.\<close>

definition keepSafe :: "bool \<Rightarrow> Board \<Rightarrow> bitboard \<Rightarrow> nat \<Rightarrow> bitboard" where
  "keepSafe isEngine board safeMoves square =
     (if isSafeSquare isEngine board square then safeMoves OR boardOf square else safeMoves)"

text \<open>
  The scan of a castling path:
  \<^verbatim>\<open>while (path) { if (!isSafeSquare(popLeastSquare(path))) break; if (!path) add; }\<close>
  over the squares of \<open>path\<close>; the result says whether the castle is added.
\<close>

fun castleScan :: "bool \<Rightarrow> Board \<Rightarrow> nat list \<Rightarrow> bool" where
  "castleScan isEngine board [] = False"
| "castleScan isEngine board (square # rest) =
     (if \<not> isSafeSquare isEngine board square then False
      else if rest = [] then True
      else castleScan isEngine board rest)"

definition queensideCastle :: "bool \<Rightarrow> Board \<Rightarrow> bitboard" where
  "queensideCastle isEngine board =
     (if (if isEngine then engineCastleQueenside (position board)
          else playerCastleQueenside (position board)) then
        (let path0 = (if isEngine then ENGINE_QUEENSIDE_CASTLE else PLAYER_QUEENSIDE_CASTLE);
             extraSquare = (if isEngine then ENGINE_QUEENSIDE_DESTINATION
                            else PLAYER_QUEENSIDE_DESTINATION);
             path1 = path0 OR (if ENGINE_IS_WHITE then push_bit 1 extraSquare
                               else drop_bit 1 extraSquare);
             path2 = path1 AND emptySquares board
         in if countSetBits path2 = 3 \<and> castleScan isEngine board (squaresOf path0)
            then extraSquare else 0)
      else 0)"

definition kingsideCastle :: "bool \<Rightarrow> Board \<Rightarrow> bitboard" where
  "kingsideCastle isEngine board =
     (if (if isEngine then engineCastleKingside (position board)
          else playerCastleKingside (position board)) then
        (let path0 = (if isEngine then ENGINE_KINGSIDE_CASTLE else PLAYER_KINGSIDE_CASTLE);
             path1 = path0 AND emptySquares board
         in if countSetBits path1 = 2 \<and> castleScan isEngine board (squaresOf path0)
            then (if isEngine then ENGINE_KINGSIDE_DESTINATION else PLAYER_KINGSIDE_DESTINATION)
            else 0)
      else 0)"

definition generateKingMoves :: "bool \<Rightarrow> Board \<Rightarrow> Move list option" where
  "generateKingMoves isEngine board =
     (let from = getLeastSquare (pieces (position board)
                   (if isEngine then ENGINE_KING else PLAYER_KING));
          moves = KING_MOVES ! from AND targets isEngine board;
          safeMoves0 = foldl (keepSafe isEngine board) 0 (squaresOf moves);
          safeMoves1 = safeMoves0 OR queensideCastle isEngine board;
          safeMoves = safeMoves1 OR kingsideCastle isEngine board
      in pushMoves isEngine board from (if isEngine then ENGINE_KING else PLAYER_KING) safeMoves)"

text \<open>
  Pawns. \<open>from\<close> is a \<open>uint8_t\<close> computed as \<open>to\<close> plus a signed offset; \<open>u8\<close> is
  the conversion back to \<open>uint8_t\<close>.
\<close>

definition u8 :: "int \<Rightarrow> nat" where
  "u8 x = nat (x mod 256)"

definition pawnType :: "bool \<Rightarrow> PieceType" where
  "pawnType isEngine = (if isEngine then ENGINE_PAWN else PLAYER_PAWN)"

definition promotionTypes :: "MoveType list" where
  "promotionTypes = [QUEEN_PROMOTION, KNIGHT_PROMOTION, BISHOP_PROMOTION, ROOK_PROMOTION]"

definition promotionMove :: "bool \<Rightarrow> nat \<Rightarrow> nat \<Rightarrow> PieceType \<Rightarrow> MoveType \<Rightarrow> Move" where
  "promotionMove isEngine from to c t =
     \<lparr>mtype = t, mfrom = from, mto = to, moving = pawnType isEngine, captured = c\<rparr>"

text \<open>The moves pushed for one pawn move to \<open>to\<close>: four promotions on the last rank, else one.\<close>

definition pawnMovesTo :: "bool \<Rightarrow> nat \<Rightarrow> nat \<Rightarrow> PieceType \<Rightarrow> Move list" where
  "pawnMovesTo isEngine from to c =
     (if boardOf to AND (if isEngine then RANK7 else RANK0) \<noteq> 0
      then map (promotionMove isEngine from to c) promotionTypes
      else [\<lparr>mtype = NORMAL, mfrom = from, mto = to, moving = pawnType isEngine, captured = c\<rparr>])"

definition singlePushTo :: "bool \<Rightarrow> MoveGen \<Rightarrow> nat \<Rightarrow> Move list" where
  "singlePushTo isEngine gen to =
     (let from = u8 (int to + (if isEngine then - 8 else 8));
          squareTo = boardOf to
      in if boardOf from AND cardinalPins gen \<noteq> 0 \<and> \<not> (squareTo AND cardinalPins gen \<noteq> 0)
         then []
         else pawnMovesTo isEngine from to NONE)"

definition doublePushTo :: "bool \<Rightarrow> MoveGen \<Rightarrow> nat \<Rightarrow> Move list" where
  "doublePushTo isEngine gen to =
     (let from = u8 (int to + (if isEngine then - 16 else 16))
      in if boardOf from AND cardinalPins gen \<noteq> 0 \<and> \<not> (boardOf to AND cardinalPins gen \<noteq> 0)
         then []
         else [\<lparr>mtype = NORMAL, mfrom = from, mto = to, moving = pawnType isEngine,
                captured = NONE\<rparr>])"

text \<open>A left (\<open>offset = 9\<close>) or right (\<open>offset = 7\<close>) capture to \<open>to\<close>.\<close>

definition pawnCaptureTo :: "bool \<Rightarrow> Board \<Rightarrow> MoveGen \<Rightarrow> int \<Rightarrow> nat \<Rightarrow> Move list option" where
  "pawnCaptureTo isEngine board gen offset to =
     (let from = u8 (int to + (if isEngine then - offset else offset));
          squareTo = boardOf to;
          squareFrom = boardOf from
      in if squareFrom AND ordinalPins gen \<noteq> 0 \<and> \<not> (squareTo AND ordinalPins gen \<noteq> 0)
         then Some []
         else (case captureType isEngine board to of
                 None \<Rightarrow> None
               | Some c \<Rightarrow> Some (pawnMovesTo isEngine from to c)))"

text \<open>
  One en-passant capture. \<open>candidates\<close> is \<open>rightEnPassant\<close> or \<open>leftEnPassant\<close>,
  \<open>towardsPawn\<close> the shift that leads from the captured pawn to the capturing one
  (\<open>True\<close> for \<open><< 1\<close>), and \<open>offset\<close> the step to the destination (7 or 9).
\<close>

definition enPassantPin :: "bool \<Rightarrow> Board \<Rightarrow> nat \<Rightarrow> bitboard" where
  "enPassantPin isEngine board from =
     (let p = position board;
          blockers = cardinalBlockers from AND occupiedSquares board
                     AND NOT (enPassantCapture p)
      in cardinalAttacks from blockers AND (if isEngine then RANK4 else RANK3)
         AND (pieces p (if isEngine then ENGINE_KING else PLAYER_KING)
              OR pieces p (if isEngine then PLAYER_QUEEN else ENGINE_QUEEN)
              OR pieces p (if isEngine then PLAYER_ROOK else ENGINE_ROOK)))"

definition enPassantMove :: "bool \<Rightarrow> Board \<Rightarrow> MoveGen \<Rightarrow> bitboard \<Rightarrow> bool \<Rightarrow> int \<Rightarrow> Move list" where
  "enPassantMove isEngine board gen candidates towardsPawn offset =
     (if candidates \<noteq> 0 then
        (let from = getLeastSquare (if towardsPawn then push_bit 1 candidates
                                    else drop_bit 1 candidates);
             to = u8 (int from + (if isEngine then offset else - offset));
             pin = enPassantPin isEngine board from
         in if boardOf from AND ordinalPins gen \<noteq> 0 \<and> \<not> (boardOf to AND ordinalPins gen \<noteq> 0)
            then []
            else if countSetBits pin \<noteq> 2
            then [\<lparr>mtype = EN_PASSANT, mfrom = from, mto = to, moving = pawnType isEngine,
                   captured = (if isEngine then PLAYER_PAWN else ENGINE_PAWN)\<rparr>]
            else [])
      else [])"

definition enPassantMoves :: "bool \<Rightarrow> Board \<Rightarrow> MoveGen \<Rightarrow> bitboard \<Rightarrow> Move list" where
  "enPassantMoves isEngine board gen pawns0 =
     (let ep = enPassantCapture (position board) in
      if ep \<noteq> 0 then
        (let pawns = pawns0 AND (if isEngine then RANK4 else RANK3);
             rightEnPassant = ep AND (if isEngine then drop_bit 1 pawns else push_bit 1 pawns)
                              AND blockerSquares gen;
             leftEnPassant = ep AND (if isEngine then push_bit 1 pawns else drop_bit 1 pawns)
                             AND blockerSquares gen
         in enPassantMove isEngine board gen rightEnPassant isEngine 7
            @ enPassantMove isEngine board gen leftEnPassant (\<not> isEngine) 9)
      else [])"

definition generatePawnMoves :: "bool \<Rightarrow> Board \<Rightarrow> MoveGen \<Rightarrow> Move list option" where
  "generatePawnMoves isEngine board gen =
     (let pawns = pieces (position board) (pawnType isEngine);
          free = pawns AND NOT (ordinalPins gen);
          singlePush0 = (if isEngine then push_bit 8 free else drop_bit 8 free)
                        AND emptySquares board;
          doublePush0 = (if isEngine then push_bit 8 (singlePush0 AND RANK2)
                         else drop_bit 8 (singlePush0 AND RANK5))
                        AND emptySquares board;
          singlePush = singlePush0 AND blockerSquares gen;
          doublePush = doublePush0 AND blockerSquares gen;
          pawns1 = pawns AND NOT (cardinalPins gen);
          enemy = (if isEngine then playerPieces board else enginePieces board);
          leftAttacks = (if isEngine then push_bit 9 (pawns1 AND NOT FILE7)
                         else drop_bit 9 (pawns1 AND NOT FILE0))
                        AND enemy AND blockerSquares gen;
          rightAttacks = (if isEngine then push_bit 7 (pawns1 AND NOT FILE0)
                          else drop_bit 7 (pawns1 AND NOT FILE7))
                         AND enemy AND blockerSquares gen
      in collect
           [Some (concat (map (singlePushTo isEngine gen) (squaresOf singlePush))),
            Some (concat (map (doublePushTo isEngine gen) (squaresOf doublePush))),
            collect (map (pawnCaptureTo isEngine board gen 9) (squaresOf leftAttacks)),
            collect (map (pawnCaptureTo isEngine board gen 7) (squaresOf rightAttacks)),
            Some (enPassantMoves isEngine board gen pawns1)])"

text \<open>
  \<open>generateEngineMoves\<close> and \<open>generatePlayerMoves\<close>. With no king of the moving side
  on the board \<open>getLeastSquare\<close> yields 64 and the masks read \<open>cardinals[64]\<close>, past
  the end of the tables: the result is \<open>None\<close>.
\<close>

definition generateMoves :: "bool \<Rightarrow> Board \<Rightarrow> Move list option" where
  "generateMoves isEngine board =
     (if pieces (position board) (if isEngine then ENGINE_KING else PLAYER_KING) = 0 then None
      else
        (let gen = \<lparr>blockerSquares = getBlockerSquares isEngine board,
                    cardinalPins = getCardinalPins isEngine board,
                    ordinalPins = getOrdinalPins isEngine board\<rparr>
         in collect
              [generatePawnMoves isEngine board gen,
               generateKnightMoves isEngine board gen,
               generateKingMoves isEngine board,
               generateBishopMoves isEngine board gen,
               generateRookMoves isEngine board gen,
               generateQueenMoves isEngine board gen]))"

definition generateEngineMoves :: "Board \<Rightarrow> Move list option" where
  "generateEngineMoves board = generateMoves True board"

definition generatePlayerMoves :: "Board \<Rightarrow> Move list option" where
  "generatePlayerMoves board = generateMoves False board"

section \<open>MoveGen.cpp: getSortedMoves\<close>

text \<open>
  \<open>PIECE_VALUES\<close> has twelve entries. \<open>PIECE_VALUES[NONE]\<close> reads the \<open>int\<close> stored
  behind the array; the source does not fix that value, so it is the parameter
  \<open>pastEnd\<close> of everything that sorts moves.
\<close>

definition pieceValue :: "int \<Rightarrow> PieceType \<Rightarrow> int" where
  "pieceValue pastEnd t = (if t = NONE then pastEnd else PIECE_VALUES ! pieceIndex t)"

text \<open>
  One iteration of the inner \<open>for\<close> loop over \<open>generated\<close>. The state is
  \<open>(score, bestScore, bestMoveIndex)\<close>. The test \<open>if (move.captured)\<close> converts the
  enumerator to \<open>bool\<close>: it holds for every value but \<open>PLAYER_PAWN\<close>, which is 0.
\<close>

definition scoreStep :: "int \<Rightarrow> int \<times> int \<times> nat \<Rightarrow> nat \<times> Move \<Rightarrow> int \<times> int \<times> nat" where
  "scoreStep pastEnd state entry =
     (case state of (score, bestScore, bestMoveIndex) \<Rightarrow>
      case entry of (index, move) \<Rightarrow>
        (let score1 =
               (if pieceIndex (captured move) \<noteq> 0
                then pieceValue pastEnd ENGINE_QUEEN + pieceValue pastEnd (captured move)
                     - pieceValue pastEnd (moving move)
                else if moving move = PLAYER_PAWN \<or> moving move = ENGINE_PAWN then 0
                else score)
         in if score1 > bestScore then (score1, score1, index)
            else (score1, bestScore, bestMoveIndex)))"

definition bestIndex :: "int \<Rightarrow> Move list \<Rightarrow> nat" where
  "bestIndex pastEnd generated =
     snd (snd (foldl (scoreStep pastEnd) (0, - 1, 0) (enumerate 0 generated)))"

lemma scoreStep_index:
  "snd (snd (foldl (scoreStep pastEnd) (s, b, i) (enumerate k xs)))
     \<in> insert i {k..<k + length xs}"
proof (induction xs arbitrary: s b i k)
  case Nil
  then show ?case by simp
next
  case (Cons x xs)
  obtain s' b' i' where step: "scoreStep pastEnd (s, b, i) (k, x) = (s', b', i')"
    by (cases "scoreStep pastEnd (s, b, i) (k, x)") auto
  then have i': "i' = i \<or> i' = k"
    by (auto simp: scoreStep_def Let_def split: if_splits)
  have "snd (snd (foldl (scoreStep pastEnd) (s', b', i') (enumerate (Suc k) xs)))
          \<in> insert i' {Suc k..<Suc k + length xs}"
    by (rule Cons.IH)
  with i' show ?case
    by (auto simp: step)
qed

lemma bestIndex_less: "generated \<noteq> [] \<Longrightarrow> bestIndex pastEnd generated < length generated"
  using scoreStep_index [of pastEnd 0 "- 1" 0 0 generated]
  by (auto simp: bestIndex_def)

text \<open>
  The outer \<open>while (!generated.empty())\<close> loop moves the selected element from
  \<open>generated\<close> to the end of the vector \<open>sorted\<close>.
\<close>

function selectMoves :: "int \<Rightarrow> Move list \<Rightarrow> Move list \<Rightarrow> Move list" where
  "selectMoves pastEnd generated sortedMoves =
     (if generated = [] then sortedMoves
      else (let i = bestIndex pastEnd generated
            in selectMoves pastEnd (take i generated @ drop (Suc i) generated)
                 (sortedMoves @ [generated ! i])))"
  by pat_completeness auto
termination
proof (relation "measure (\<lambda>(pastEnd, generated, sortedMoves). length generated)")
  show "wf (measure (\<lambda>(pastEnd :: int, generated :: Move list, sortedMoves :: Move list).
              length generated))"
    by simp
next
  fix pastEnd :: int and generated sortedMoves :: "Move list" and i :: nat
  assume "generated \<noteq> []" and "i = bestIndex pastEnd generated"
  then have "i < length generated" by (simp add: bestIndex_less)
  then show "((pastEnd, take i generated @ drop (Suc i) generated, sortedMoves @ [generated ! i]),
              pastEnd, generated, sortedMoves)
             \<in> measure (\<lambda>(pastEnd, generated, sortedMoves). length generated)"
    by simp
qed

declare selectMoves.simps [simp del]

text \<open>\<open>getSortedMoves\<close>; the loop has emptied \<open>generated\<close> when it returns.\<close>

definition getSortedMoves :: "int \<Rightarrow> Move list \<Rightarrow> Move list" where
  "getSortedMoves pastEnd generated = rev (selectMoves pastEnd generated [])"

section \<open>Evaluation.cpp\<close>

definition popcount :: "bitboard \<Rightarrow> int" where
  "popcount board = int (countSetBits board)"

definition evaluate :: "Position \<Rightarrow> int" where
  "evaluate p =
     (let material = (\<lambda>t. popcount (pieces p t) * (PIECE_VALUES ! pieceIndex t));
          score0 = 0 - material PLAYER_PAWN - material PLAYER_KNIGHT - material PLAYER_BISHOP
                     - material PLAYER_ROOK - material PLAYER_QUEEN;
          score1 = score0 + material ENGINE_PAWN + material ENGINE_KNIGHT + material ENGINE_BISHOP
                     + material ENGINE_ROOK + material ENGINE_QUEEN;
          score2 = score1 - popcount (pieces p PLAYER_KNIGHT AND CENTER_16_SQUARES) * 70;
          score3 = score2 + popcount (pieces p ENGINE_KNIGHT AND CENTER_16_SQUARES) * 70;
          score4 = score3 - popcount (pieces p PLAYER_BISHOP AND CENTER_16_SQUARES) * 60;
          score5 = score4 + popcount (pieces p ENGINE_BISHOP AND CENTER_16_SQUARES) * 60;
          score6 = score5 - popcount (pieces p PLAYER_PAWN AND PAWN_CENTER) * 10;
          score7 = score6 - popcount (pieces p PLAYER_PAWN AND CENTER_4_SQUARES) * 30;
          score8 = score7 - popcount (pieces p PLAYER_PAWN AND PLAYER_ADVANCED_PAWNS) * 15;
          score9 = score8 + popcount (pieces p ENGINE_PAWN AND PAWN_CENTER) * 10;
          score10 = score9 + popcount (pieces p ENGINE_PAWN AND CENTER_4_SQUARES) * 30
      in score10 + popcount (pieces p ENGINE_PAWN AND ENGINE_ADVANCED_PAWNS) * 15)"

section \<open>Search.cpp\<close>

text \<open>
  The searcher works on the one \<open>Board\<close> object in place, so \<open>maximize\<close> and \<open>minimize\<close>
  take the board and return it with the score. A move is undone by
  \<^verbatim>\<open>board->position = clone; board->engineToMove = !board->engineToMove;\<close>
\<close>

definition undoMove :: "Position \<Rightarrow> Board \<Rightarrow> Board" where
  "undoMove clone board = board\<lparr>position := clone, engineToMove := \<not> engineToMove board\<rparr>"

text \<open>
  Termination: every call from a loop goes one ply deeper, and a routine enters its
  loop only while \<open>ply \<le> SEARCH_DEPTH\<close>.
\<close>

definition searchDepthLeft ::
  "(int \<times> Board \<times> int \<times> int \<times> int) + (int \<times> Board \<times> int \<times> Move list \<times> int \<times> int \<times> int)
   \<Rightarrow> nat" where
  "searchDepthLeft call =
     (case call of
        Inl (pastEnd, board, ply, alpha, beta) \<Rightarrow> 2 * nat (SEARCH_DEPTH + 1 - ply)
      | Inr (pastEnd, board, ply, moves, bestScore, alpha, beta) \<Rightarrow>
          2 * nat (SEARCH_DEPTH - ply) + 1)"

definition searchMovesLeft ::
  "(int \<times> Board \<times> int \<times> int \<times> int) + (int \<times> Board \<times> int \<times> Move list \<times> int \<times> int \<times> int)
   \<Rightarrow> nat" where
  "searchMovesLeft call =
     (case call of
        Inl (pastEnd, board, ply, alpha, beta) \<Rightarrow> 0
      | Inr (pastEnd, board, ply, moves, bestScore, alpha, beta) \<Rightarrow> length moves)"

function maximize :: "int \<Rightarrow> Board \<Rightarrow> int \<Rightarrow> int \<Rightarrow> int \<Rightarrow> (int \<times> Board) option"
  and maximizeLoop :: "int \<Rightarrow> Board \<Rightarrow> int \<Rightarrow> Move list \<Rightarrow> int \<Rightarrow> int \<Rightarrow> int
                        \<Rightarrow> (int \<times> Board) option"
  and minimize :: "int \<Rightarrow> Board \<Rightarrow> int \<Rightarrow> int \<Rightarrow> int \<Rightarrow> (int \<times> Board) option"
  and minimizeLoop :: "int \<Rightarrow> Board \<Rightarrow> int \<Rightarrow> Move list \<Rightarrow> int \<Rightarrow> int \<Rightarrow> int
                        \<Rightarrow> (int \<times> Board) option"
where
  "maximize pastEnd board ply alpha beta =
     (if ply > SEARCH_DEPTH then Some (evaluate (position board), board)
      else (case generateEngineMoves board of
              None \<Rightarrow> None
            | Some generated \<Rightarrow>
                (let moves = getSortedMoves pastEnd generated
                 in if moves = [] then
                      (if isKingInCheck True board then Some (MIN_EVAL + ply, board)
                       else Some (0, board))
                    else maximizeLoop pastEnd board ply moves MIN_EVAL alpha beta)))"
| "maximizeLoop pastEnd board ply [] bestScore alpha beta = Some (bestScore, board)"
| "maximizeLoop pastEnd board ply (move # rest) bestScore alpha beta =
     (case makeMove True move board of
        None \<Rightarrow> None
      | Some board1 \<Rightarrow>
          (case minimize pastEnd board1 (ply + 1) alpha beta of
             None \<Rightarrow> None
           | Some (score, board2) \<Rightarrow>
               (let bestScore1 = (if score > bestScore then score else bestScore);
                    board3 = undoMove (position board) board2;
                    alpha1 = (if bestScore1 > alpha then bestScore1 else alpha)
                in if beta \<le> alpha1 then Some (bestScore1, board3)
                   else maximizeLoop pastEnd board3 ply rest bestScore1 alpha1 beta)))"
| "minimize pastEnd board ply alpha beta =
     (if ply > SEARCH_DEPTH then Some (evaluate (position board), board)
      else (case generatePlayerMoves board of
              None \<Rightarrow> None
            | Some generated \<Rightarrow>
                (let moves = getSortedMoves pastEnd generated
                 in if moves = [] then
                      (if isKingInCheck False board then Some (MAX_EVAL - ply, board)
                       else Some (0, board))
                    else minimizeLoop pastEnd board ply moves MAX_EVAL alpha beta)))"
| "minimizeLoop pastEnd board ply [] bestScore alpha beta = Some (bestScore, board)"
| "minimizeLoop pastEnd board ply (move # rest) bestScore alpha beta =
     (case makeMove False move board of
        None \<Rightarrow> None
      | Some board1 \<Rightarrow>
          (case maximize pastEnd board1 (ply + 1) alpha beta of
             None \<Rightarrow> None
           | Some (score, board2) \<Rightarrow>
               (let bestScore1 = (if score < bestScore then score else bestScore);
                    board3 = undoMove (position board) board2;
                    beta1 = (if bestScore1 < beta then bestScore1 else beta)
                in if beta1 \<le> alpha then Some (bestScore1, board3)
                   else minimizeLoop pastEnd board3 ply rest bestScore1 alpha beta1)))"
  by pat_completeness auto

termination
  by (relation "measures [\<lambda>call. searchDepthLeft (case call of Inl c \<Rightarrow> c | Inr c \<Rightarrow> c),
                          \<lambda>call. searchMovesLeft (case call of Inl c \<Rightarrow> c | Inr c \<Rightarrow> c)]")
     (auto simp: searchDepthLeft_def searchMovesLeft_def)

declare maximize.simps [simp del] minimize.simps [simp del]

section \<open>Evaluating bitboard expressions\<close>

text \<open>
  Closed bitboard terms are evaluated by rewriting on the binary representation of
  numerals: \<open>W n\<close> is the bitboard with numeral \<open>n\<close>, and each operation of the model has
  an equation that computes on \<open>num\<close>.
\<close>

definition W :: "num \<Rightarrow> bitboard" where
  "W n = numeral n"

definition Wo :: "num option \<Rightarrow> bitboard" where
  "Wo x = (case x of None \<Rightarrow> 0 | Some n \<Rightarrow> W n)"

lemma Wo_simps: "Wo None = 0" "Wo (Some n) = W n"
  by (simp_all add: Wo_def)

lemma numeral_W: "(numeral n :: bitboard) = W n" "(1 :: bitboard) = W num.One"
  by (simp_all add: W_def)

lemma W_and: "W m AND W n = Wo (and_num m n)"
proof -
  have "(numeral m :: bitboard) AND numeral n = word_of_int (numeral m AND numeral n)"
    by (simp only: of_int_and_eq of_int_numeral)
  also have "\<dots> = word_of_int (case and_num m n of None \<Rightarrow> 0 | Some k \<Rightarrow> numeral k)"
    by (simp only: numeral_and_num [where ?'a = int])
  also have "\<dots> = Wo (and_num m n)"
    by (cases "and_num m n") (simp_all only: option.case Wo_def W_def of_int_0 of_int_numeral)
  finally show ?thesis by (simp only: W_def)
qed

lemma W_or: "W m OR W n = W (or_num m n)"
proof -
  have "(numeral m :: bitboard) OR numeral n = word_of_int (numeral m OR numeral n)"
    by (simp only: of_int_or_eq of_int_numeral)
  also have "\<dots> = word_of_int (numeral (or_num m n))"
    by (simp only: numeral_or_num [where ?'a = int])
  finally show ?thesis by (simp only: W_def of_int_numeral)
qed

lemma W_xor: "W m XOR W n = Wo (xor_num m n)"
proof -
  have "(numeral m :: bitboard) XOR numeral n = word_of_int (numeral m XOR numeral n)"
    by (simp only: of_int_xor_eq of_int_numeral)
  also have "\<dots> = word_of_int (case xor_num m n of None \<Rightarrow> 0 | Some k \<Rightarrow> numeral k)"
    by (simp only: numeral_xor_num [where ?'a = int])
  also have "\<dots> = Wo (xor_num m n)"
    by (cases "xor_num m n") (simp_all only: option.case Wo_def W_def of_int_0 of_int_numeral)
  finally show ?thesis by (simp only: W_def)
qed

fun ones :: "nat \<Rightarrow> num" where
  "ones 0 = num.One"
| "ones (Suc k) = num.Bit1 (ones k)"

lemma ones_numeral: "ones (numeral k) = num.Bit1 (ones (pred_numeral k))"
  by (simp add: numeral_eq_Suc)

lemma numeral_ones: "(numeral (ones k) :: int) = 2 ^ Suc k - 1"
proof (induction k)
  case 0
  show ?case by simp
next
  case (Suc k)
  have "(numeral (ones (Suc k)) :: int) = 2 * numeral (ones k) + 1"
    by (simp only: ones.simps numeral_Bit1)
  also have "\<dots> = 2 ^ Suc (Suc k) - 1"
    by (simp only: Suc) simp
  finally show ?case .
qed

definition full64 :: num where
  "full64 = ones 63"

lemma W_full64: "W full64 = - 1"
proof -
  have "(numeral (ones 63) :: int) = 2 ^ 64 - 1"
    by (simp only: numeral_ones) simp
  then have "(word_of_int (numeral (ones 63)) :: bitboard) = word_of_int (2 ^ 64 - 1)"
    by (simp only:)
  also have "\<dots> = - 1" by simp
  finally show ?thesis by (simp only: W_def full64_def of_int_numeral)
qed

lemma W_not: "NOT (W n) = Wo (xor_num n full64)"
proof -
  have "NOT (W n) = W n XOR W full64"
    by (simp only: W_full64 bit.xor_one_right)
  then show ?thesis by (simp only: W_xor)
qed

lemma not_zero_W: "NOT (0 :: bitboard) = W full64"
  by (simp add: W_full64)

lemma W_canon: "W n = Wo (take_bit_num 64 n)"
proof -
  have "(numeral n :: bitboard) = word_of_int (take_bit 64 (numeral n))"
    using num_abs_bintr [of n, where ?'a = 64] by simp
  also have "\<dots> = word_of_int (case take_bit_num 64 n of None \<Rightarrow> 0 | Some q \<Rightarrow> numeral q)"
    by (simp only: take_bit_numeral_numeral [where ?'a = int])
  finally show ?thesis
    by (simp add: W_def Wo_def split: option.splits)
qed

lemma W_eq_0: "(W n = 0) = (take_bit_num 64 n = None)"
proof (cases "take_bit_num 64 n")
  case None
  then show ?thesis using W_canon [of n] by (simp add: Wo_def)
next
  case (Some q)
  then have "take_bit 64 (numeral n :: nat) = numeral q"
    by (rule take_bit_num_eq_Some_imp)
  then have "unat (numeral n :: bitboard) = numeral q"
    by (simp add: unsigned_numeral)
  then have "(numeral n :: bitboard) \<noteq> 0"
    by (metis unsigned_0 zero_neq_numeral)
  with Some show ?thesis by (simp add: W_def)
qed

text \<open>Shifts.\<close>

fun shl_num :: "nat \<Rightarrow> num \<Rightarrow> num" where
  "shl_num 0 n = n"
| "shl_num (Suc k) n = shl_num k (num.Bit0 n)"

lemma shl_num_numeral: "(numeral (shl_num k n) :: bitboard) = push_bit k (numeral n)"
proof (induction k arbitrary: n)
  case 0
  then show ?case by (simp only: shl_num.simps push_bit_0_id id_apply)
next
  case (Suc k)
  have "(numeral (num.Bit0 n) :: bitboard) = numeral n * 2"
    by (metis mult_2_right numeral_Bit0)
  then show ?case
    by (simp only: shl_num.simps Suc push_bit_Suc)
qed

lemma W_push: "push_bit k (W n) = Wo (take_bit_num 64 (shl_num k n))"
  by (simp only: W_canon [symmetric]) (simp only: W_def shl_num_numeral)

lemma zero_push: "push_bit k (0 :: bitboard) = 0"
  by simp

fun shr_num :: "nat \<Rightarrow> num \<Rightarrow> num option" where
  "shr_num 0 n = Some n"
| "shr_num (Suc k) num.One = None"
| "shr_num (Suc k) (num.Bit0 n) = shr_num k n"
| "shr_num (Suc k) (num.Bit1 n) = shr_num k n"

lemma shr_num_nat:
  "drop_bit k (numeral n :: nat) = (case shr_num k n of None \<Rightarrow> 0 | Some q \<Rightarrow> numeral q)"
proof (induction k n rule: shr_num.induct)
  case (1 n)
  then show ?case by simp
next
  case (2 k)
  then show ?case by (simp add: drop_bit_Suc)
next
  case (3 k n)
  then show ?case by (simp add: drop_bit_Suc numeral_Bit0_div_2)
next
  case (4 k n)
  then show ?case by (simp add: drop_bit_Suc numeral_Bit1_div_2)
qed

definition shr_opt :: "nat \<Rightarrow> num option \<Rightarrow> num option" where
  "shr_opt k x = (case x of None \<Rightarrow> None | Some n \<Rightarrow> shr_num k n)"

lemma shr_opt_simps: "shr_opt k None = None" "shr_opt k (Some n) = shr_num k n"
  by (simp_all add: shr_opt_def)

lemma W_drop: "drop_bit k (W n) = Wo (shr_opt k (take_bit_num 64 n))"
proof (cases "take_bit_num 64 n")
  case None
  then have "W n = 0" by (simp add: W_eq_0)
  with None show ?thesis by (simp add: shr_opt_def Wo_def)
next
  case (Some q)
  then have q: "take_bit 64 (numeral n :: nat) = numeral q"
    by (rule take_bit_num_eq_Some_imp)
  then have "unat (numeral n :: bitboard) = numeral q"
    by (simp add: unsigned_numeral)
  then have "unat (drop_bit k (numeral n :: bitboard)) = drop_bit k (numeral q :: nat)"
    by (simp add: unat_drop_bit_eq)
  also have "\<dots> = (case shr_num k q of None \<Rightarrow> 0 | Some r \<Rightarrow> numeral r)"
    by (rule shr_num_nat)
  finally have "word_of_nat (unat (drop_bit k (numeral n :: bitboard)))
                = (word_of_nat (case shr_num k q of None \<Rightarrow> 0 | Some r \<Rightarrow> numeral r) :: bitboard)"
    by (simp only:)
  then have "drop_bit k (numeral n :: bitboard)
                = word_of_nat (case shr_num k q of None \<Rightarrow> 0 | Some r \<Rightarrow> numeral r)"
    by (simp only: of_nat_unat ucast_id)
  with Some show ?thesis
    by (simp add: W_def Wo_def shr_opt_def split: option.splits)
qed


text \<open>Bits of a numeral.\<close>

fun bitsFrom :: "nat \<Rightarrow> num \<Rightarrow> nat list" where
  "bitsFrom k num.One = [k]"
| "bitsFrom k (num.Bit0 n) = bitsFrom (k + 1) n"
| "bitsFrom k (num.Bit1 n) = k # bitsFrom (k + 1) n"

lemma bit_numeral_Bit0_iff: "bit (numeral (num.Bit0 n) :: nat) i \<longleftrightarrow> i > 0 \<and> bit (numeral n :: nat) (i - 1)"
  by (cases i) (simp_all add: bit_Suc bit_0)

lemma bit_numeral_Bit1_iff: "bit (numeral (num.Bit1 n) :: nat) i \<longleftrightarrow> i = 0 \<or> bit (numeral n :: nat) (i - 1)"
  by (cases i) (simp_all add: bit_Suc bit_0)

lemma set_bitsFrom: "set (bitsFrom k n) = {i. k \<le> i \<and> bit (numeral n :: nat) (i - k)}"
proof (induction n arbitrary: k)
  case One
  show ?case by (auto simp: bit_Suc_0_iff)
next
  case (Bit0 n)
  show ?case
    by (auto simp: Bit0 bit_numeral_Bit0_iff)
next
  case (Bit1 n)
  show ?case
    by (auto simp: Bit1 bit_numeral_Bit1_iff)
qed

lemma bitsFrom_lower: "i \<in> set (bitsFrom k n) \<Longrightarrow> k \<le> i"
  by (simp add: set_bitsFrom)

lemma sorted_bitsFrom: "sorted (bitsFrom k n) \<and> distinct (bitsFrom k n)"
proof (induction n arbitrary: k)
  case One
  show ?case by simp
next
  case (Bit0 n)
  then show ?case by simp
next
  case (Bit1 n)
  have "\<And>i. i \<in> set (bitsFrom (k + 1) n) \<Longrightarrow> k < i"
    using bitsFrom_lower [of _ "k + 1" n] by fastforce
  with Bit1 [of "k + 1"] show ?case by (auto simp: less_imp_le)
qed


lemma tzcnt_least: "j < tzcnt n board \<Longrightarrow> \<not> bit board j"
proof (induction n arbitrary: board j)
  case 0
  then show ?case by simp
next
  case (Suc n)
  show ?case
  proof (cases "bit board 0")
    case True
    with Suc.prems show ?thesis by simp
  next
    case False
    show ?thesis
    proof (cases j)
      case 0
      with False show ?thesis by simp
    next
      case (Suc i)
      with Suc.prems False have "i < tzcnt n (drop_bit 1 board)" by simp
      from Suc.IH [OF this] Suc show ?thesis by (simp add: bit_drop_bit_eq)
    qed
  qed
qed

lemma tzcnt_zero: "tzcnt n 0 = n"
  by (induction n) simp_all

lemma squaresOf_props:
  "set (squaresOf w) = {i. bit w i} \<and> sorted (squaresOf w) \<and> distinct (squaresOf w)"
proof (induction w rule: squaresOf.induct)
  case (1 board)
  show ?case
  proof (cases "board = 0")
    case True
    then show ?thesis by (simp add: squaresOf.simps)
  next
    case False
    define k where "k = getLeastSquare board"
    define rest where "rest = board XOR boardOf k"
    have k: "bit board k" "k < 64"
      using getLeastSquare_bit [OF False] by (simp_all add: k_def)
    have least: "k \<le> j" if "bit board j" for j
    proof (rule ccontr)
      assume "\<not> k \<le> j"
      then have "j < tzcnt 64 board" by (simp add: k_def getLeastSquare_def)
      from tzcnt_least [OF this] that show False by simp
    qed
    have rest: "{i. bit rest i} = {i. bit board i} - {k}"
      using k by (auto simp: rest_def boardOf_def bit_simps dest: bit_imp_le_length)
    have unfold: "squaresOf board = k # squaresOf rest"
      using False by (subst squaresOf.simps) (simp add: popLeastSquare_def k_def rest_def Let_def)
    have IH: "set (squaresOf rest) = {i. bit rest i} \<and> sorted (squaresOf rest)
              \<and> distinct (squaresOf rest)"
      using 1 [OF False] by (simp add: popLeastSquare_def k_def rest_def Let_def)
    show ?thesis
      using IH k least by (auto simp: unfold rest)
  qed
qed

lemma bit_W_iff: "bit (W n) i \<longleftrightarrow> i < 64 \<and> bit (numeral n :: nat) i"
proof -
  have "bit (numeral n :: bitboard) i \<longleftrightarrow> i < 64 \<and> bit (numeral n :: int) i"
    by simp
  moreover have "bit (numeral n :: int) i \<longleftrightarrow> bit (numeral n :: nat) i"
    using bit_of_nat_iff_bit [of "numeral n" i, where ?'a = int] by simp
  ultimately show ?thesis by (simp add: W_def)
qed

lemma squaresOf_W: "squaresOf (W n) = filter (\<lambda>i. i < 64) (bitsFrom 0 n)"
proof (rule sorted_distinct_set_unique)
  show "sorted (squaresOf (W n))" "distinct (squaresOf (W n))"
    by (simp_all add: squaresOf_props)
  show "sorted (filter (\<lambda>i. i < 64) (bitsFrom 0 n))"
    by (simp add: sorted_bitsFrom sorted_wrt_filter)
  show "distinct (filter (\<lambda>i. i < 64) (bitsFrom 0 n))"
    by (simp add: sorted_bitsFrom)
  show "set (squaresOf (W n)) = set (filter (\<lambda>i. i < 64) (bitsFrom 0 n))"
    by (auto simp: squaresOf_props set_bitsFrom bit_W_iff)
qed

lemma squaresOf_0: "squaresOf 0 = []"
  by (simp add: squaresOf.simps)

lemma getLeastSquare_squaresOf:
  "getLeastSquare w = (case squaresOf w of [] \<Rightarrow> 64 | k # rest \<Rightarrow> k)"
  by (subst squaresOf.simps) (simp add: popLeastSquare_def getLeastSquare_def tzcnt_zero Let_def)

lemma countSetBits_squaresOf: "countSetBits w = length (squaresOf w)"
proof -
  have "filter (bit w) [0..<64] = squaresOf w"
  proof (rule sorted_distinct_set_unique)
    show "set (filter (bit w) [0..<64]) = set (squaresOf w)"
      by (auto simp: squaresOf_props dest: bit_imp_le_length)
  qed (simp_all add: squaresOf_props sorted_wrt_filter)
  then show ?thesis by (simp add: countSetBits_def)
qed

lemma shl_num_numeral_simps:
  "shl_num (numeral k) n = shl_num (pred_numeral k) (num.Bit0 n)"
  by (simp add: numeral_eq_Suc)

lemma shr_num_numeral_simps:
  "shr_num (numeral k) num.One = None"
  "shr_num (numeral k) (num.Bit0 n) = shr_num (pred_numeral k) n"
  "shr_num (numeral k) (num.Bit1 n) = shr_num (pred_numeral k) n"
  by (simp_all add: numeral_eq_Suc)

lemma boardOf_W: "square < 64 \<Longrightarrow> boardOf square = W (shl_num square num.One)"
proof -
  have "W (shl_num square num.One) = push_bit square (numeral num.One)"
    by (simp only: W_def shl_num_numeral)
  then show ?thesis by (simp add: boardOf_def)
qed

lemma minus_one_W: "- W num.One = W full64"
  by (simp only: W_full64) (simp add: W_def)

lemma W_times_2: "W n * W (num.Bit0 num.One) = Wo (take_bit_num 64 (num.Bit0 n))"
proof -
  have "W n * W (num.Bit0 num.One) = push_bit (Suc 0) (W n)"
    by (simp add: W_def)
  then show ?thesis by (simp only: W_push shl_num.simps)
qed

lemma W_div_2: "W n div W (num.Bit0 num.One) = Wo (shr_opt (Suc 0) (take_bit_num 64 n))"
proof -
  have "W n div W (num.Bit0 num.One) = drop_bit (Suc 0) (W n)"
    by (simp add: W_def drop_bit_Suc)
  then show ?thesis by (simp only: W_drop)
qed

lemma bitsFrom_eval:
  "bitsFrom 0 num.One = [0]"
  "bitsFrom 0 (num.Bit0 n) = bitsFrom (Suc 0) n"
  "bitsFrom 0 (num.Bit1 n) = 0 # bitsFrom (Suc 0) n"
  "bitsFrom (Suc 0) num.One = [Suc 0]"
  "bitsFrom (Suc 0) (num.Bit0 n) = bitsFrom 2 n"
  "bitsFrom (Suc 0) (num.Bit1 n) = Suc 0 # bitsFrom 2 n"
  "bitsFrom (numeral k) num.One = [numeral k]"
  "bitsFrom (numeral k) (num.Bit0 n) = bitsFrom (numeral (Num.inc k)) n"
  "bitsFrom (numeral k) (num.Bit1 n) = numeral k # bitsFrom (numeral (Num.inc k)) n"
  by (simp_all add: add_One numeral_2_eq_2)

declare bitsFrom.simps [simp del]

lemma take_bit_num_inj:
  assumes "take_bit_num 64 m = Some q" "take_bit_num 64 n = Some r" "W m = W n"
  shows "q = r"
proof -
  have q: "take_bit 64 (numeral m :: nat) = numeral q"
    using assms(1) by (rule take_bit_num_eq_Some_imp)
  have r: "take_bit 64 (numeral n :: nat) = numeral r"
    using assms(2) by (rule take_bit_num_eq_Some_imp)
  have "unat (W m) = numeral q"
    using q by (simp add: W_def unsigned_numeral)
  moreover have "unat (W n) = numeral r"
    using r by (simp add: W_def unsigned_numeral)
  ultimately have "unat (W m) = numeral q" "unat (W n) = numeral r"
    by simp_all
  with assms(3) have "(numeral q :: nat) = numeral r" by simp
  then show ?thesis by simp
qed

lemma W_eq: "(W m = W n) = (take_bit_num 64 m = take_bit_num 64 n)"
proof (cases "take_bit_num 64 m")
  case None
  then have "W m = 0" by (simp add: W_eq_0)
  with None show ?thesis using W_eq_0 [of n] by auto
next
  case m: (Some q)
  show ?thesis
  proof (cases "take_bit_num 64 n")
    case None
    then have "W n = 0" by (simp add: W_eq_0)
    with None m show ?thesis using W_eq_0 [of m] by auto
  next
    case n: (Some r)
    show ?thesis
    proof
      assume "W m = W n"
      from take_bit_num_inj [OF m n this] show "take_bit_num 64 m = take_bit_num 64 n"
        by (simp add: m n)
    next
      assume "take_bit_num 64 m = take_bit_num 64 n"
      then show "W m = W n"
        using W_canon [of m] W_canon [of n] by simp
    qed
  qed
qed

lemma zero_eq_W: "(0 = W n) = (take_bit_num 64 n = None)"
  using W_eq_0 [of n] by auto

lemmas eval64 =
  numeral_W Wo_simps W_and W_or W_xor W_not not_zero_W W_eq_0 W_push W_drop shr_opt_simps
  squaresOf_W squaresOf_0 getLeastSquare_squaresOf countSetBits_squaresOf
  full64_def ones_numeral shl_num_numeral_simps shr_num_numeral_simps boardOf_W
  minus_one_W W_times_2 W_div_2 W_eq zero_eq_W bitsFrom_eval

text \<open>The defining equations used when a closed term of the model is evaluated.\<close>

lemmas ray_defs = getRookAttacks_def getBishopAttacks_def getRookBlockers_def getBishopBlockers_def
  rayStep_def northSquares_def eastSquares_def southSquares_def westSquares_def
  slide.simps isOnBoard_def Let_def OUTER_SQUARES_def upt_conv_Cons

lemmas const_defs = ENGINE_IS_WHITE_def RANK0_def RANK1_def RANK2_def RANK3_def RANK4_def RANK5_def
  RANK6_def RANK7_def FILE0_def FILE7_def
  PLAYER_KINGSIDE_CASTLE_def ENGINE_KINGSIDE_CASTLE_def PLAYER_QUEENSIDE_CASTLE_def
  ENGINE_QUEENSIDE_CASTLE_def ENGINE_QUEENSIDE_DESTINATION_def ENGINE_KINGSIDE_DESTINATION_def
  PLAYER_KINGSIDE_DESTINATION_def PLAYER_QUEENSIDE_DESTINATION_def PLAYER_KINGSIDE_ROOK_def
  ENGINE_KINGSIDE_ROOK_def PLAYER_QUEENSIDE_ROOK_def ENGINE_QUEENSIDE_ROOK_def FILLED_BOARD_def
  KNIGHT_MOVES_def KING_MOVES_def INITIAL_BOARD_def

lemmas board_defs = update_def getPlayerPieceType_def getEnginePieceType_def getPieceType_def
  playerTypes_def engineTypes_def

lemmas gen_defs = cardinalAttacks_def ordinalAttacks_def
  enemyCardinals_def enemyOrdinals_def pawnAttackers_def isSafeSquare_def isKingInCheck_def
  getBlockerSquares_def ordinalPinStep_def getOrdinalPins_def cardinalPinStep_def
  getCardinalPins_def captureType_def targets_def pushMove_def pushMoves_def collect_def
  queenMovesFrom_def generateQueenMoves_def rookMovesFrom_def generateRookMoves_def
  bishopMovesFrom_def generateBishopMoves_def knightMovesFrom_def generateKnightMoves_def
  keepSafe_def queensideCastle_def kingsideCastle_def generateKingMoves_def u8_def pawnType_def
  promotionTypes_def promotionMove_def pawnMovesTo_def singlePushTo_def doublePushTo_def
  pawnCaptureTo_def enPassantPin_def enPassantMove_def enPassantMoves_def generatePawnMoves_def
  generateMoves_def generateEngineMoves_def generatePlayerMoves_def

lemmas make_defs = makeMove_def placeMoving_def promotedType_def removeCaptured_def moveKing_def
  moveRook_def movePawn_def undoMove_def

text \<open>The blocker masks of all 64 squares, computed once.\<close>

lemma cardinalBlockers_table:
  "cardinalBlockers 0 = 0x000101010101017E"
  "cardinalBlockers (Suc 0) = 0x000202020202027C"
  "cardinalBlockers 2 = 0x000404040404047A"
  "cardinalBlockers 3 = 0x0008080808080876"
  "cardinalBlockers 4 = 0x001010101010106E"
  "cardinalBlockers 5 = 0x002020202020205E"
  "cardinalBlockers 6 = 0x004040404040403E"
  "cardinalBlockers 7 = 0x008080808080807E"
  "cardinalBlockers 8 = 0x0001010101017E00"
  "cardinalBlockers 9 = 0x0002020202027C00"
  "cardinalBlockers 10 = 0x0004040404047A00"
  "cardinalBlockers 11 = 0x0008080808087600"
  "cardinalBlockers 12 = 0x0010101010106E00"
  "cardinalBlockers 13 = 0x0020202020205E00"
  "cardinalBlockers 14 = 0x0040404040403E00"
  "cardinalBlockers 15 = 0x0080808080807E00"
  "cardinalBlockers 16 = 0x00010101017E0100"
  "cardinalBlockers 17 = 0x00020202027C0200"
  "cardinalBlockers 18 = 0x00040404047A0400"
  "cardinalBlockers 19 = 0x0008080808760800"
  "cardinalBlockers 20 = 0x00101010106E1000"
  "cardinalBlockers 21 = 0x00202020205E2000"
  "cardinalBlockers 22 = 0x00404040403E4000"
  "cardinalBlockers 23 = 0x00808080807E8000"
  "cardinalBlockers 24 = 0x000101017E010100"
  "cardinalBlockers 25 = 0x000202027C020200"
  "cardinalBlockers 26 = 0x000404047A040400"
  "cardinalBlockers 27 = 0x0008080876080800"
  "cardinalBlockers 28 = 0x001010106E101000"
  "cardinalBlockers 29 = 0x002020205E202000"
  "cardinalBlockers 30 = 0x004040403E404000"
  "cardinalBlockers 31 = 0x008080807E808000"
  "cardinalBlockers 32 = 0x0001017E01010100"
  "cardinalBlockers 33 = 0x0002027C02020200"
  "cardinalBlockers 34 = 0x0004047A04040400"
  "cardinalBlockers 35 = 0x0008087608080800"
  "cardinalBlockers 36 = 0x0010106E10101000"
  "cardinalBlockers 37 = 0x0020205E20202000"
  "cardinalBlockers 38 = 0x0040403E40404000"
  "cardinalBlockers 39 = 0x0080807E80808000"
  "cardinalBlockers 40 = 0x00017E0101010100"
  "cardinalBlockers 41 = 0x00027C0202020200"
  "cardinalBlockers 42 = 0x00047A0404040400"
  "cardinalBlockers 43 = 0x0008760808080800"
  "cardinalBlockers 44 = 0x00106E1010101000"
  "cardinalBlockers 45 = 0x00205E2020202000"
  "cardinalBlockers 46 = 0x00403E4040404000"
  "cardinalBlockers 47 = 0x00807E8080808000"
  "cardinalBlockers 48 = 0x007E010101010100"
  "cardinalBlockers 49 = 0x007C020202020200"
  "cardinalBlockers 50 = 0x007A040404040400"
  "cardinalBlockers 51 = 0x0076080808080800"
  "cardinalBlockers 52 = 0x006E101010101000"
  "cardinalBlockers 53 = 0x005E202020202000"
  "cardinalBlockers 54 = 0x003E404040404000"
  "cardinalBlockers 55 = 0x007E808080808000"
  "cardinalBlockers 56 = 0x7E01010101010100"
  "cardinalBlockers 57 = 0x7C02020202020200"
  "cardinalBlockers 58 = 0x7A04040404040400"
  "cardinalBlockers 59 = 0x7608080808080800"
  "cardinalBlockers 60 = 0x6E10101010101000"
  "cardinalBlockers 61 = 0x5E20202020202000"
  "cardinalBlockers 62 = 0x3E40404040404000"
  "cardinalBlockers 63 = 0x7E80808080808000"
  by (simp_all add: eval64 ray_defs cardinalBlockers_def split del: if_split
        cong: let_weak_cong option.case_cong_weak prod.case_cong_weak)

lemma ordinalBlockers_table:
  "ordinalBlockers 0 = 0x0040201008040200"
  "ordinalBlockers (Suc 0) = 0x0000402010080400"
  "ordinalBlockers 2 = 0x0000004020100A00"
  "ordinalBlockers 3 = 0x0000000040221400"
  "ordinalBlockers 4 = 0x0000000002442800"
  "ordinalBlockers 5 = 0x0000000204085000"
  "ordinalBlockers 6 = 0x0000020408102000"
  "ordinalBlockers 7 = 0x0002040810204000"
  "ordinalBlockers 8 = 0x0020100804020000"
  "ordinalBlockers 9 = 0x0040201008040000"
  "ordinalBlockers 10 = 0x00004020100A0000"
  "ordinalBlockers 11 = 0x0000004022140000"
  "ordinalBlockers 12 = 0x0000000244280000"
  "ordinalBlockers 13 = 0x0000020408500000"
  "ordinalBlockers 14 = 0x0002040810200000"
  "ordinalBlockers 15 = 0x0004081020400000"
  "ordinalBlockers 16 = 0x0010080402000200"
  "ordinalBlockers 17 = 0x0020100804000400"
  "ordinalBlockers 18 = 0x004020100A000A00"
  "ordinalBlockers 19 = 0x0000402214001400"
  "ordinalBlockers 20 = 0x0000024428002800"
  "ordinalBlockers 21 = 0x0002040850005000"
  "ordinalBlockers 22 = 0x0004081020002000"
  "ordinalBlockers 23 = 0x0008102040004000"
  "ordinalBlockers 24 = 0x0008040200020400"
  "ordinalBlockers 25 = 0x0010080400040800"
  "ordinalBlockers 26 = 0x0020100A000A1000"
  "ordinalBlockers 27 = 0x0040221400142200"
  "ordinalBlockers 28 = 0x0002442800284400"
  "ordinalBlockers 29 = 0x0004085000500800"
  "ordinalBlockers 30 = 0x0008102000201000"
  "ordinalBlockers 31 = 0x0010204000402000"
  "ordinalBlockers 32 = 0x0004020002040800"
  "ordinalBlockers 33 = 0x0008040004081000"
  "ordinalBlockers 34 = 0x00100A000A102000"
  "ordinalBlockers 35 = 0x0022140014224000"
  "ordinalBlockers 36 = 0x0044280028440200"
  "ordinalBlockers 37 = 0x0008500050080400"
  "ordinalBlockers 38 = 0x0010200020100800"
  "ordinalBlockers 39 = 0x0020400040201000"
  "ordinalBlockers 40 = 0x0002000204081000"
  "ordinalBlockers 41 = 0x0004000408102000"
  "ordinalBlockers 42 = 0x000A000A10204000"
  "ordinalBlockers 43 = 0x0014001422400000"
  "ordinalBlockers 44 = 0x0028002844020000"
  "ordinalBlockers 45 = 0x0050005008040200"
  "ordinalBlockers 46 = 0x0020002010080400"
  "ordinalBlockers 47 = 0x0040004020100800"
  "ordinalBlockers 48 = 0x0000020408102000"
  "ordinalBlockers 49 = 0x0000040810204000"
  "ordinalBlockers 50 = 0x00000A1020400000"
  "ordinalBlockers 51 = 0x0000142240000000"
  "ordinalBlockers 52 = 0x0000284402000000"
  "ordinalBlockers 53 = 0x0000500804020000"
  "ordinalBlockers 54 = 0x0000201008040200"
  "ordinalBlockers 55 = 0x0000402010080400"
  "ordinalBlockers 56 = 0x0002040810204000"
  "ordinalBlockers 57 = 0x0004081020400000"
  "ordinalBlockers 58 = 0x000A102040000000"
  "ordinalBlockers 59 = 0x0014224000000000"
  "ordinalBlockers 60 = 0x0028440200000000"
  "ordinalBlockers 61 = 0x0050080402000000"
  "ordinalBlockers 62 = 0x0020100804020000"
  "ordinalBlockers 63 = 0x0040201008040200"
  by (simp_all add: eval64 ray_defs ordinalBlockers_def split del: if_split
        cong: let_weak_cong option.case_cong_weak prod.case_cong_weak)


lemmas run_defs = eval64 ray_defs const_defs board_defs gen_defs make_defs
  cardinalBlockers_table ordinalBlockers_table
section \<open>The invariants of the position and the type lookups\<close>

text \<open>
  \<open>piecesDisjoint\<close>: the twelve piece bitboards are pairwise disjoint.
  \<open>masksConsistent\<close>: the six derived masks are what \<open>update\<close> computes.
\<close>

definition pieceTypes :: "PieceType list" where
  "pieceTypes = playerTypes @ engineTypes"

fun pairwiseDisjoint :: "bitboard list \<Rightarrow> bool" where
  "pairwiseDisjoint [] = True"
| "pairwiseDisjoint (b # bs) = (list_all (\<lambda>c. b AND c = 0) bs \<and> pairwiseDisjoint bs)"

definition piecesDisjoint :: "Position \<Rightarrow> bool" where
  "piecesDisjoint p = pairwiseDisjoint (map (pieces p) pieceTypes)"

definition masksConsistent :: "Board \<Rightarrow> bool" where
  "masksConsistent board =
     (enginePieces board = enginePieces (update board)
      \<and> playerPieces board = playerPieces (update board)
      \<and> occupiedSquares board = occupiedSquares (update board)
      \<and> emptySquares board = emptySquares (update board)
      \<and> playerOrEmpty board = playerOrEmpty (update board)
      \<and> engineOrEmpty board = engineOrEmpty (update board))"

lemma bit_boardOf: "bit (boardOf square) n \<longleftrightarrow> n = square \<and> square < 64"
  by (auto simp: boardOf_def bit_exp_iff)

lemma and_boardOf: "square < 64 \<Longrightarrow> (b AND boardOf square \<noteq> 0) = bit b square"
proof -
  assume s: "square < 64"
  show ?thesis
  proof (cases "bit b square")
    case True
    then have "bit (b AND boardOf square) square"
      using s by (simp add: bit_and_iff bit_boardOf)
    then have "b AND boardOf square \<noteq> 0" by auto
    with True show ?thesis by simp
  next
    case False
    have "b AND boardOf square = 0"
      by (rule bit_eqI) (use False in \<open>auto simp: bit_and_iff bit_boardOf\<close>)
    with False show ?thesis by simp
  qed
qed

lemma pairwiseDisjoint_map:
  "pairwiseDisjoint (map f ts) \<Longrightarrow> distinct ts \<Longrightarrow> a \<in> set ts \<Longrightarrow> b \<in> set ts \<Longrightarrow> a \<noteq> b
   \<Longrightarrow> f a AND f b = 0"
proof (induction ts)
  case Nil
  then show ?case by simp
next
  case (Cons t ts)
  then show ?case
    by (auto simp: list_all_iff and.commute)
qed

lemma piecesDisjoint_bits:
  assumes "piecesDisjoint p" "a \<in> set pieceTypes" "b \<in> set pieceTypes" "a \<noteq> b"
    "bit (pieces p a) square"
  shows "\<not> bit (pieces p b) square"
proof -
  have "distinct pieceTypes"
    by (simp add: pieceTypes_def playerTypes_def engineTypes_def)
  with assms have "pieces p a AND pieces p b = 0"
    unfolding piecesDisjoint_def by (intro pairwiseDisjoint_map [of "pieces p" pieceTypes]) auto
  then have "\<not> bit (pieces p a AND pieces p b) square" by simp
  with assms show ?thesis by (simp add: bit_and_iff)
qed

lemma firstPieceOn_unique:
  "t \<in> set ts \<Longrightarrow> pieces p t AND m \<noteq> 0 \<Longrightarrow>
   (\<And>t'. t' \<in> set ts \<Longrightarrow> t' \<noteq> t \<Longrightarrow> pieces p t' AND m = 0) \<Longrightarrow>
   firstPieceOn p m ts = Some t"
  by (induction ts) auto


lemma update_fields:
  "enginePieces (update board) =
     (let p = pieces (position board) in p ENGINE_PAWN OR p ENGINE_KNIGHT OR p ENGINE_BISHOP
        OR p ENGINE_ROOK OR p ENGINE_QUEEN OR p ENGINE_KING)"
  "playerPieces (update board) =
     (let p = pieces (position board) in p PLAYER_PAWN OR p PLAYER_KNIGHT OR p PLAYER_BISHOP
        OR p PLAYER_ROOK OR p PLAYER_QUEEN OR p PLAYER_KING)"
  "occupiedSquares (update board) = enginePieces (update board) OR playerPieces (update board)"
  "emptySquares (update board) = NOT (occupiedSquares (update board))"
  "position (update board) = position board"
  "engineToMove (update board) = engineToMove board"
  by (simp_all add: update_def Let_def)

lemma consistent_bits:
  assumes "masksConsistent board"
  shows "bit (playerPieces board) s \<longleftrightarrow> (\<exists>t \<in> set playerTypes. bit (pieces (position board) t) s)"
    and "bit (enginePieces board) s \<longleftrightarrow> (\<exists>t \<in> set engineTypes. bit (pieces (position board) t) s)"
    and "s < 64 \<Longrightarrow> bit (emptySquares board) s \<longleftrightarrow> (\<forall>t \<in> set pieceTypes. \<not> bit (pieces (position board) t) s)"
proof -
  from assms have e: "enginePieces board = enginePieces (update board)"
    and p: "playerPieces board = playerPieces (update board)"
    and o: "occupiedSquares board = occupiedSquares (update board)"
    and m: "emptySquares board = emptySquares (update board)"
    by (simp_all add: masksConsistent_def)
  show player: "bit (playerPieces board) s \<longleftrightarrow> (\<exists>t \<in> set playerTypes. bit (pieces (position board) t) s)"
    by (simp add: p update_fields Let_def bit_or_iff playerTypes_def)
  show engine: "bit (enginePieces board) s \<longleftrightarrow> (\<exists>t \<in> set engineTypes. bit (pieces (position board) t) s)"
    by (simp add: e update_fields Let_def bit_or_iff engineTypes_def)
  assume s: "s < 64"
  have "bit (emptySquares board) s \<longleftrightarrow> \<not> (bit (enginePieces board) s \<or> bit (playerPieces board) s)"
    using s by (simp add: m update_fields(3,4) bit_not_iff bit_or_iff bit_and_iff e p)
  then show "bit (emptySquares board) s \<longleftrightarrow> (\<forall>t \<in> set pieceTypes. \<not> bit (pieces (position board) t) s)"
    unfolding player engine by (auto simp: pieceTypes_def)
qed

text \<open>
  Claim C10. For every square below 64, on a board whose derived masks equal the unions
  of the twelve piece bitboards and whose piece bitboards are pairwise disjoint, the
  three type lookups return without reaching \<open>assert(false)\<close>: \<open>NONE\<close> when no
  bitboard holds the square, and otherwise the type whose bitboard holds it
  (\<open>getPlayerPieceType\<close> and \<open>getEnginePieceType\<close> for the types of their own side).
\<close>

theorem getPieceType_total:
  assumes "square < 64" and "masksConsistent board" and "piecesDisjoint (position board)"
  shows "((\<forall>t \<in> set pieceTypes. \<not> bit (pieces (position board) t) square) \<longrightarrow>
            getPieceType board square = Some NONE
            \<and> getPlayerPieceType board square = Some NONE
            \<and> getEnginePieceType board square = Some NONE)
         \<and> (\<forall>t \<in> set playerTypes. bit (pieces (position board) t) square \<longrightarrow>
               getPieceType board square = Some t \<and> getPlayerPieceType board square = Some t)
         \<and> (\<forall>t \<in> set engineTypes. bit (pieces (position board) t) square \<longrightarrow>
               getPieceType board square = Some t \<and> getEnginePieceType board square = Some t)"
proof (intro conjI impI ballI)
  let ?p = "position board"
  let ?m = "boardOf square"
  note bits = consistent_bits [OF assms(2)] and_boardOf [OF assms(1)]
  {
    assume none: "\<forall>t \<in> set pieceTypes. \<not> bit (pieces ?p t) square"
    then have "emptySquares board AND ?m \<noteq> 0"
      using assms(1) by (simp add: bits)
    then show "getPieceType board square = Some NONE"
      "getPlayerPieceType board square = Some NONE"
      "getEnginePieceType board square = Some NONE"
      by (simp_all add: getPieceType_def getPlayerPieceType_def getEnginePieceType_def)
  }
  {
    fix t assume t: "t \<in> set playerTypes" "bit (pieces ?p t) square"
    then have mem: "t \<in> set pieceTypes" by (simp add: pieceTypes_def)
    have notEmpty: "\<not> (emptySquares board AND ?m \<noteq> 0)"
      using t mem assms(1) by (auto simp: bits)
    have player: "playerPieces board AND ?m \<noteq> 0"
      using t by (auto simp: bits)
    have "firstPieceOn ?p ?m playerTypes = Some t"
    proof (rule firstPieceOn_unique)
      show "t \<in> set playerTypes" by (rule t)
      show "pieces ?p t AND ?m \<noteq> 0" using t by (simp add: bits)
      fix t' assume "t' \<in> set playerTypes" "t' \<noteq> t"
      then have "\<not> bit (pieces ?p t') square"
        using piecesDisjoint_bits [OF assms(3) mem _ _ t(2), of t'] by (auto simp: pieceTypes_def)
      then show "pieces ?p t' AND ?m = 0" using bits(4) [of "pieces ?p t'"] by simp
    qed
    then show p: "getPlayerPieceType board square = Some t"
      using notEmpty by (simp add: getPlayerPieceType_def)
    show "getPieceType board square = Some t"
      using notEmpty player p by (simp add: getPieceType_def)
  }
  {
    fix t assume t: "t \<in> set engineTypes" "bit (pieces ?p t) square"
    then have mem: "t \<in> set pieceTypes" by (simp add: pieceTypes_def)
    have notEmpty: "\<not> (emptySquares board AND ?m \<noteq> 0)"
      using t mem assms(1) by (auto simp: bits)
    have engine: "enginePieces board AND ?m \<noteq> 0"
      using t by (auto simp: bits)
    have noPlayer: "\<not> (playerPieces board AND ?m \<noteq> 0)"
    proof -
      have "\<not> bit (pieces ?p t') square" if "t' \<in> set playerTypes" for t'
      proof -
        from that t(1) have "t' \<noteq> t" by (auto simp: playerTypes_def engineTypes_def)
        with that show ?thesis
          using piecesDisjoint_bits [OF assms(3) mem _ _ t(2), of t']
          by (auto simp: pieceTypes_def)
      qed
      then show ?thesis by (auto simp: bits)
    qed
    have "firstPieceOn ?p ?m engineTypes = Some t"
    proof (rule firstPieceOn_unique)
      show "t \<in> set engineTypes" by (rule t)
      show "pieces ?p t AND ?m \<noteq> 0" using t by (simp add: bits)
      fix t' assume "t' \<in> set engineTypes" "t' \<noteq> t"
      then have "\<not> bit (pieces ?p t') square"
        using piecesDisjoint_bits [OF assms(3) mem _ _ t(2), of t'] by (auto simp: pieceTypes_def)
      then show "pieces ?p t' AND ?m = 0" using bits(4) [of "pieces ?p t'"] by simp
    qed
    then show e: "getEnginePieceType board square = Some t"
      using notEmpty by (simp add: getEnginePieceType_def)
    show "getPieceType board square = Some t"
      using notEmpty noPlayer engine e by (simp add: getPieceType_def)
  }
qed

lemma masksConsistent_update: "masksConsistent (update board)"
  by (simp add: masksConsistent_def update_def Let_def)

lemma masksConsistent_newBoard: "masksConsistent newBoard"
proof -
  have "masksConsistent (b\<lparr>engineToMove := x\<rparr>) = masksConsistent b" for b x
    by (simp add: masksConsistent_def update_def Let_def)
  then show ?thesis
    unfolding newBoard_def by (simp only: masksConsistent_update)
qed

lemma newBoard_fields:
  "pieces (position newBoard) PLAYER_PAWN = 0x00FF000000000000"
  "pieces (position newBoard) PLAYER_KNIGHT = 0x4200000000000000"
  "pieces (position newBoard) PLAYER_BISHOP = 0x2400000000000000"
  "pieces (position newBoard) PLAYER_ROOK = 0x8100000000000000"
  "pieces (position newBoard) PLAYER_QUEEN = 0x1000000000000000"
  "pieces (position newBoard) PLAYER_KING = 0x0800000000000000"
  "pieces (position newBoard) ENGINE_PAWN = 0xFF00"
  "pieces (position newBoard) ENGINE_KNIGHT = 0x42"
  "pieces (position newBoard) ENGINE_BISHOP = 0x24"
  "pieces (position newBoard) ENGINE_ROOK = 0x81"
  "pieces (position newBoard) ENGINE_QUEEN = 0x10"
  "pieces (position newBoard) ENGINE_KING = 0x08"
  "playerCastleQueenside (position newBoard) = True"
  "playerCastleKingside (position newBoard) = True"
  "engineCastleQueenside (position newBoard) = True"
  "engineCastleKingside (position newBoard) = True"
  "enPassantCapture (position newBoard) = 0"
  "engineToMove newBoard = True"
  "enginePieces newBoard = 0xFFFF"
  "playerPieces newBoard = 0xFFFF000000000000"
  "occupiedSquares newBoard = 0xFFFF00000000FFFF"
  "emptySquares newBoard = 0x0000FFFFFFFF0000"
  "playerOrEmpty newBoard = 0xFFFFFFFFFFFF0000"
  "engineOrEmpty newBoard = 0x0000FFFFFFFFFFFF"
  by (simp_all add: eval64 const_defs board_defs newBoard_def split del: if_split
        cong: let_weak_cong)

lemma piecesDisjoint_newBoard: "piecesDisjoint (position newBoard)"
  by (simp add: piecesDisjoint_def pieceTypes_def playerTypes_def engineTypes_def newBoard_fields
        eval64 split del: if_split)

text \<open>The lookups on the initial position: a king of each side and an empty square.\<close>

theorem getPieceType_total_witness:
  "getPieceType newBoard 3 = Some ENGINE_KING \<and> getEnginePieceType newBoard 3 = Some ENGINE_KING
   \<and> getPieceType newBoard 59 = Some PLAYER_KING \<and> getPlayerPieceType newBoard 59 = Some PLAYER_KING
   \<and> getPieceType newBoard 20 = Some NONE"
proof -
  have e: "ENGINE_KING \<in> set engineTypes" "bit (pieces (position newBoard) ENGINE_KING) 3"
    by (simp_all add: engineTypes_def newBoard_fields)
  have p: "PLAYER_KING \<in> set playerTypes" "bit (pieces (position newBoard) PLAYER_KING) 59"
    by (simp_all add: playerTypes_def newBoard_fields)
  have n: "\<forall>t \<in> set pieceTypes. \<not> bit (pieces (position newBoard) t) 20"
    by (simp add: pieceTypes_def playerTypes_def engineTypes_def newBoard_fields)
  show ?thesis
    using getPieceType_total [of 3 newBoard, OF _ masksConsistent_newBoard piecesDisjoint_newBoard]
      getPieceType_total [of 59 newBoard, OF _ masksConsistent_newBoard piecesDisjoint_newBoard]
      getPieceType_total [of 20 newBoard, OF _ masksConsistent_newBoard piecesDisjoint_newBoard]
      e p n
    by simp
qed


section \<open>The initial position and its moves\<close>

text \<open>
  A move that captures nothing and is no castle, promotion or en-passant capture, as
  \<open>pushMove\<close> builds it for a target square that holds no piece.
\<close>

definition quiet :: "PieceType \<Rightarrow> nat \<Rightarrow> nat \<Rightarrow> Move" where
  "quiet piece squareFrom squareTo =
     \<lparr>mtype = NORMAL, mfrom = squareFrom, mto = squareTo, moving = piece, captured = NONE\<rparr>"

definition singlePushes :: "Move list" where
  "singlePushes = map (\<lambda>square. quiet ENGINE_PAWN square (square + 8)) [8..<16]"

definition doublePushes :: "Move list" where
  "doublePushes = map (\<lambda>square. quiet ENGINE_PAWN square (square + 16)) [8..<16]"

definition knightJumps :: "Move list" where
  "knightJumps =
     [quiet ENGINE_KNIGHT 1 16, quiet ENGINE_KNIGHT 1 18,
      quiet ENGINE_KNIGHT 6 21, quiet ENGINE_KNIGHT 6 23]"

definition startMoves :: "Move list" where
  "startMoves = singlePushes @ doublePushes @ knightJumps"

text \<open>
  What the search does with one move of a list: \<open>makeMove\<close>, then the move generation of the
  other side on the board that results.
\<close>

definition repliesAfter :: "bool \<Rightarrow> Board \<Rightarrow> Move \<Rightarrow> Move list option" where
  "repliesAfter isEngine board move =
     (case makeMove isEngine move board of
        None \<Rightarrow> None
      | Some board1 \<Rightarrow> generateMoves (\<not> isEngine) board1)"

definition replyCount :: "bool \<Rightarrow> Board \<Rightarrow> Move \<Rightarrow> nat option" where
  "replyCount isEngine board move = map_option length (repliesAfter isEngine board move)"

lemma startMoves_list:
  "startMoves =
     [quiet ENGINE_PAWN 8 16,
      quiet ENGINE_PAWN 9 17,
      quiet ENGINE_PAWN 10 18,
      quiet ENGINE_PAWN 11 19,
      quiet ENGINE_PAWN 12 20,
      quiet ENGINE_PAWN 13 21,
      quiet ENGINE_PAWN 14 22,
      quiet ENGINE_PAWN 15 23,
      quiet ENGINE_PAWN 8 24,
      quiet ENGINE_PAWN 9 25,
      quiet ENGINE_PAWN 10 26,
      quiet ENGINE_PAWN 11 27,
      quiet ENGINE_PAWN 12 28,
      quiet ENGINE_PAWN 13 29,
      quiet ENGINE_PAWN 14 30,
      quiet ENGINE_PAWN 15 31,
      quiet ENGINE_KNIGHT (Suc 0) 16,
      quiet ENGINE_KNIGHT (Suc 0) 18,
      quiet ENGINE_KNIGHT 6 21,
      quiet ENGINE_KNIGHT 6 23]"
  by (simp add: startMoves_def singlePushes_def doublePushes_def knightJumps_def upt_conv_Cons)

lemma generateEngineMoves_newBoard: "generateEngineMoves newBoard = Some startMoves"
  by (simp add: run_defs newBoard_fields startMoves_list quiet_def
      split del: if_split cong: let_weak_cong option.case_cong_weak prod.case_cong_weak)

section \<open>Move counts from the initial position\<close>

text \<open>The number of replies of the player to each of the twenty moves of the engine.\<close>

lemma replyCount_start_0: "replyCount True newBoard (quiet ENGINE_PAWN 8 16) = Some 20"
  by (simp add: run_defs newBoard_fields replyCount_def repliesAfter_def quiet_def
      split del: if_split cong: let_weak_cong option.case_cong_weak prod.case_cong_weak)

lemma replyCount_start_1: "replyCount True newBoard (quiet ENGINE_PAWN 9 17) = Some 20"
  by (simp add: run_defs newBoard_fields replyCount_def repliesAfter_def quiet_def
      split del: if_split cong: let_weak_cong option.case_cong_weak prod.case_cong_weak)

lemma replyCount_start_2: "replyCount True newBoard (quiet ENGINE_PAWN 10 18) = Some 20"
  by (simp add: run_defs newBoard_fields replyCount_def repliesAfter_def quiet_def
      split del: if_split cong: let_weak_cong option.case_cong_weak prod.case_cong_weak)

lemma replyCount_start_3: "replyCount True newBoard (quiet ENGINE_PAWN 11 19) = Some 20"
  by (simp add: run_defs newBoard_fields replyCount_def repliesAfter_def quiet_def
      split del: if_split cong: let_weak_cong option.case_cong_weak prod.case_cong_weak)

lemma replyCount_start_4: "replyCount True newBoard (quiet ENGINE_PAWN 12 20) = Some 20"
  by (simp add: run_defs newBoard_fields replyCount_def repliesAfter_def quiet_def
      split del: if_split cong: let_weak_cong option.case_cong_weak prod.case_cong_weak)

lemma replyCount_start_5: "replyCount True newBoard (quiet ENGINE_PAWN 13 21) = Some 20"
  by (simp add: run_defs newBoard_fields replyCount_def repliesAfter_def quiet_def
      split del: if_split cong: let_weak_cong option.case_cong_weak prod.case_cong_weak)

lemma replyCount_start_6: "replyCount True newBoard (quiet ENGINE_PAWN 14 22) = Some 20"
  by (simp add: run_defs newBoard_fields replyCount_def repliesAfter_def quiet_def
      split del: if_split cong: let_weak_cong option.case_cong_weak prod.case_cong_weak)

lemma replyCount_start_7: "replyCount True newBoard (quiet ENGINE_PAWN 15 23) = Some 20"
  by (simp add: run_defs newBoard_fields replyCount_def repliesAfter_def quiet_def
      split del: if_split cong: let_weak_cong option.case_cong_weak prod.case_cong_weak)

lemma replyCount_start_8: "replyCount True newBoard (quiet ENGINE_PAWN 8 24) = Some 20"
  by (simp add: run_defs newBoard_fields replyCount_def repliesAfter_def quiet_def
      split del: if_split cong: let_weak_cong option.case_cong_weak prod.case_cong_weak)

lemma replyCount_start_9: "replyCount True newBoard (quiet ENGINE_PAWN 9 25) = Some 20"
  by (simp add: run_defs newBoard_fields replyCount_def repliesAfter_def quiet_def
      split del: if_split cong: let_weak_cong option.case_cong_weak prod.case_cong_weak)

lemma replyCount_start_10: "replyCount True newBoard (quiet ENGINE_PAWN 10 26) = Some 20"
  by (simp add: run_defs newBoard_fields replyCount_def repliesAfter_def quiet_def
      split del: if_split cong: let_weak_cong option.case_cong_weak prod.case_cong_weak)

lemma replyCount_start_11: "replyCount True newBoard (quiet ENGINE_PAWN 11 27) = Some 20"
  by (simp add: run_defs newBoard_fields replyCount_def repliesAfter_def quiet_def
      split del: if_split cong: let_weak_cong option.case_cong_weak prod.case_cong_weak)

lemma replyCount_start_12: "replyCount True newBoard (quiet ENGINE_PAWN 12 28) = Some 20"
  by (simp add: run_defs newBoard_fields replyCount_def repliesAfter_def quiet_def
      split del: if_split cong: let_weak_cong option.case_cong_weak prod.case_cong_weak)

lemma replyCount_start_13: "replyCount True newBoard (quiet ENGINE_PAWN 13 29) = Some 20"
  by (simp add: run_defs newBoard_fields replyCount_def repliesAfter_def quiet_def
      split del: if_split cong: let_weak_cong option.case_cong_weak prod.case_cong_weak)

lemma replyCount_start_14: "replyCount True newBoard (quiet ENGINE_PAWN 14 30) = Some 20"
  by (simp add: run_defs newBoard_fields replyCount_def repliesAfter_def quiet_def
      split del: if_split cong: let_weak_cong option.case_cong_weak prod.case_cong_weak)

lemma replyCount_start_15: "replyCount True newBoard (quiet ENGINE_PAWN 15 31) = Some 20"
  by (simp add: run_defs newBoard_fields replyCount_def repliesAfter_def quiet_def
      split del: if_split cong: let_weak_cong option.case_cong_weak prod.case_cong_weak)

lemma replyCount_start_16: "replyCount True newBoard (quiet ENGINE_KNIGHT (Suc 0) 16) = Some 20"
  by (simp add: run_defs newBoard_fields replyCount_def repliesAfter_def quiet_def
      split del: if_split cong: let_weak_cong option.case_cong_weak prod.case_cong_weak)

lemma replyCount_start_17: "replyCount True newBoard (quiet ENGINE_KNIGHT (Suc 0) 18) = Some 20"
  by (simp add: run_defs newBoard_fields replyCount_def repliesAfter_def quiet_def
      split del: if_split cong: let_weak_cong option.case_cong_weak prod.case_cong_weak)

lemma replyCount_start_18: "replyCount True newBoard (quiet ENGINE_KNIGHT 6 21) = Some 20"
  by (simp add: run_defs newBoard_fields replyCount_def repliesAfter_def quiet_def
      split del: if_split cong: let_weak_cong option.case_cong_weak prod.case_cong_weak)

lemma replyCount_start_19: "replyCount True newBoard (quiet ENGINE_KNIGHT 6 23) = Some 20"
  by (simp add: run_defs newBoard_fields replyCount_def repliesAfter_def quiet_def
      split del: if_split cong: let_weak_cong option.case_cong_weak prod.case_cong_weak)

lemmas replyCount_start = replyCount_start_0 replyCount_start_1 replyCount_start_2 replyCount_start_3 replyCount_start_4 replyCount_start_5 replyCount_start_6 replyCount_start_7 replyCount_start_8 replyCount_start_9 replyCount_start_10
  replyCount_start_11 replyCount_start_12 replyCount_start_13 replyCount_start_14 replyCount_start_15 replyCount_start_16 replyCount_start_17 replyCount_start_18 replyCount_start_19

text \<open>
  Claim C1. The board the constructor builds has the engine to move (the engine plays White).
  Generating the moves of the side to move there gives exactly the twenty moves of
  \<open>startMoves\<close>: eight single pawn pushes, eight double pawn pushes and four knight moves.
  After each of them the player has twenty replies, so there are 400 sequences of two moves.
\<close>

theorem perft_newBoard:
  "engineToMove newBoard = ENGINE_IS_WHITE
   \<and> generateMoves (engineToMove newBoard) newBoard = Some startMoves
   \<and> length startMoves = 20
   \<and> length singlePushes = 8 \<and> length doublePushes = 8 \<and> length knightJumps = 4
   \<and> map (replyCount (engineToMove newBoard) newBoard) startMoves = replicate 20 (Some 20)
   \<and> sum_list (map (\<lambda>move. the (replyCount (engineToMove newBoard) newBoard move)) startMoves)
       = 400"
proof -
  have toMove: "engineToMove newBoard = True"
    by (simp add: newBoard_fields)
  have generated: "generateMoves True newBoard = Some startMoves"
    using generateEngineMoves_newBoard by (simp add: generateEngineMoves_def)
  have counts: "map (replyCount True newBoard) startMoves = replicate 20 (Some 20)"
    by (simp only: startMoves_list list.map replyCount_start)
      (simp add: numeral_eq_Suc)
  have total: "sum_list (map (\<lambda>move. the (replyCount True newBoard move)) startMoves) = 400"
    by (simp only: startMoves_list list.map replyCount_start option.sel) simp
  have sizes: "length singlePushes = 8 \<and> length doublePushes = 8 \<and> length knightJumps = 4"
    by (simp add: singlePushes_def doublePushes_def knightJumps_def)
  have "length startMoves = 20"
    using sizes by (simp add: startMoves_def)
  with toMove generated counts total sizes show ?thesis
    by (simp add: ENGINE_IS_WHITE_def)
qed

section \<open>Undoing a move in the search\<close>

text \<open>
  The sequence of one loop iteration of \<open>maximize\<close> and \<open>minimize\<close> around the recursive call:
  \<^verbatim>\<open>Position clone = board->position; board->makeMove(move); ...; board->position = clone;
  board->engineToMove = !board->engineToMove;\<close>
\<close>

definition makeThenUndo :: "bool \<Rightarrow> Move \<Rightarrow> Board \<Rightarrow> Board option" where
  "makeThenUndo isEngine move board =
     map_option (undoMove (position board)) (makeMove isEngine move board)"

lemma makeMove_masks:
  assumes "makeMove isEngine move board = Some board1"
  shows "masksConsistent board1"
proof -
  have flip: "masksConsistent (b\<lparr>engineToMove := x\<rparr>) = masksConsistent b" for b x
    by (simp add: masksConsistent_def update_def Let_def)
  from assms show ?thesis
    by (auto simp: makeMove_def Let_def flip masksConsistent_update split: if_splits)
qed

lemma makeMove_engineToMove:
  assumes "makeMove isEngine move board = Some board1"
  shows "engineToMove board1 = (\<not> engineToMove board)"
  using assms by (auto simp: makeMove_def Let_def update_fields split: if_splits)

text \<open>
  Counterexample for claim C3 as stated. The first move generated from the initial position
  is the pawn push from square 8 to square 16. After making and undoing it the board is not the
  initial one: \<open>occupiedSquares\<close> still has square 16 set and square 8 clear.
\<close>

theorem makeThenUndo_newBoard_differs:
  "generateEngineMoves newBoard = Some startMoves
   \<and> quiet ENGINE_PAWN 8 16 \<in> set startMoves
   \<and> makeThenUndo True (quiet ENGINE_PAWN 8 16) newBoard \<noteq> Some newBoard
   \<and> map_option occupiedSquares (makeThenUndo True (quiet ENGINE_PAWN 8 16) newBoard)
       = Some 0xFFFF00000001FEFF
   \<and> occupiedSquares newBoard = 0xFFFF00000000FFFF"
proof -
  have after: "map_option occupiedSquares (makeThenUndo True (quiet ENGINE_PAWN 8 16) newBoard)
      = Some 0xFFFF00000001FEFF"
    by (simp add: run_defs newBoard_fields makeThenUndo_def quiet_def
        split del: if_split cong: let_weak_cong option.case_cong_weak prod.case_cong_weak)
  have before: "occupiedSquares newBoard = 0xFFFF00000000FFFF"
    by (simp add: newBoard_fields)
  have "makeThenUndo True (quiet ENGINE_PAWN 8 16) newBoard \<noteq> Some newBoard"
  proof
    assume "makeThenUndo True (quiet ENGINE_PAWN 8 16) newBoard = Some newBoard"
    with after have "occupiedSquares newBoard = 0xFFFF00000001FEFF" by simp
    with before show False by simp
  qed
  moreover have "quiet ENGINE_PAWN 8 16 \<in> set startMoves"
    by (simp add: startMoves_list)
  ultimately show ?thesis
    using after before generateEngineMoves_newBoard by simp
qed

text \<open>
  Claim C3, amended. Whenever \<open>makeMove\<close> accepts the move, making and undoing it restores the
  \<open>Position\<close> (the twelve piece bitboards, the four castling rights and \<open>enPassantCapture\<close>)
  and the side to move. The six derived masks are not restored: they keep the values
  \<open>update\<close> gave them for the position after the move.
\<close>

theorem makeThenUndo_restores_position:
  assumes "makeMove isEngine move board = Some board1"
  shows "makeThenUndo isEngine move board
           = Some (board1\<lparr>position := position board, engineToMove := engineToMove board\<rparr>)
         \<and> masksConsistent board1"
proof -
  have "undoMove (position board) board1
      = board1\<lparr>position := position board, engineToMove := engineToMove board\<rparr>"
    using makeMove_engineToMove [OF assms] by (simp add: undoMove_def)
  with assms makeMove_masks [OF assms] show ?thesis
    by (simp add: makeThenUndo_def)
qed

theorem makeThenUndo_restores_position_witness:
  "makeMove True (quiet ENGINE_PAWN 8 16) newBoard \<noteq> None
   \<and> makeThenUndo True (quiet ENGINE_PAWN 8 16) newBoard
       = Some ((the (makeMove True (quiet ENGINE_PAWN 8 16) newBoard))
                \<lparr>position := position newBoard, engineToMove := engineToMove newBoard\<rparr>)
   \<and> masksConsistent (the (makeMove True (quiet ENGINE_PAWN 8 16) newBoard))"
proof -
  have made: "makeMove True (quiet ENGINE_PAWN 8 16) newBoard
      = Some (the (makeMove True (quiet ENGINE_PAWN 8 16) newBoard))"
    by (simp add: makeMove_def quiet_def Let_def)
  then have "makeMove True (quiet ENGINE_PAWN 8 16) newBoard \<noteq> None"
    by (simp add: makeMove_def quiet_def Let_def)
  with makeThenUndo_restores_position [OF made] show ?thesis
    by (simp only: simp_thms)
qed

section \<open>Positions other than the initial one\<close>

text \<open>
  A board holding the given pieces, every other bitboard empty and no castling right left,
  with the derived masks computed by \<open>update\<close> as the constructor does.
\<close>

definition boardWith :: "(PieceType \<times> bitboard) list \<Rightarrow> bitboard \<Rightarrow> bool \<Rightarrow> Board" where
  "boardWith placed enPassant toMove =
     update
       \<lparr>position =
          \<lparr>pieces = (\<lambda>piece. case map_of placed piece of None \<Rightarrow> 0 | Some b \<Rightarrow> b),
           playerCastleQueenside = False,
           playerCastleKingside = False,
           engineCastleQueenside = False,
           engineCastleKingside = False,
           enPassantCapture = enPassant\<rparr>,
        engineToMove = toMove,
        enginePieces = 0, playerOrEmpty = 0, playerPieces = 0,
        engineOrEmpty = 0, emptySquares = 0, occupiedSquares = 0\<rparr>"

definition captureBy :: "PieceType \<Rightarrow> nat \<Rightarrow> nat \<Rightarrow> PieceType \<Rightarrow> Move" where
  "captureBy piece squareFrom squareTo victim =
     \<lparr>mtype = NORMAL, mfrom = squareFrom, mto = squareTo, moving = piece, captured = victim\<rparr>"

definition enPassantBy :: "bool \<Rightarrow> nat \<Rightarrow> nat \<Rightarrow> Move" where
  "enPassantBy isEngine squareFrom squareTo =
     \<lparr>mtype = EN_PASSANT, mfrom = squareFrom, mto = squareTo,
      moving = (if isEngine then ENGINE_PAWN else PLAYER_PAWN),
      captured = (if isEngine then PLAYER_PAWN else ENGINE_PAWN)\<rparr>"

text \<open>
  \<open>offers board move reply\<close>: after \<open>move\<close> of the player on \<open>board\<close>, the generation of the
  engine's moves succeeds and contains \<open>reply\<close>.
\<close>

definition offers :: "Board \<Rightarrow> Move \<Rightarrow> Move \<Rightarrow> bool" where
  "offers board move reply =
     (case repliesAfter False board move of
        None \<Rightarrow> False
      | Some replies \<Rightarrow> reply \<in> set replies)"

text \<open>The value of \<open>enPassantCapture\<close> once the move is made.\<close>

definition enPassantAfter :: "bool \<Rightarrow> Move \<Rightarrow> Board \<Rightarrow> bitboard option" where
  "enPassantAfter isEngine move board =
     map_option (\<lambda>board1. enPassantCapture (position board1)) (makeMove isEngine move board)"

section \<open>The en-passant capture beside a rook\<close>

text \<open>
  The engine plays White, so square 3 is e1, 35 is e5, 52 is d7, 36 is d5, 44 is d6, 39 is a5
  and 32 is h5. \<open>rookOnRank\<close> is the position before the double push of the player's pawn:
  engine pawn on e5, engine king on e1, player pawn on d7, player rook on a5, player king on
  e8. \<open>kingOnRank\<close> differs in the engine king only, which stands on h5.
\<close>

definition rookOnRank :: Board where
  "rookOnRank =
     boardWith [(ENGINE_PAWN, boardOf 35), (ENGINE_KING, boardOf 3), (PLAYER_PAWN, boardOf 52),
                (PLAYER_ROOK, boardOf 39), (PLAYER_KING, boardOf 59)] 0 False"

definition kingOnRank :: Board where
  "kingOnRank =
     boardWith [(ENGINE_PAWN, boardOf 35), (ENGINE_KING, boardOf 32), (PLAYER_PAWN, boardOf 52),
                (PLAYER_ROOK, boardOf 39), (PLAYER_KING, boardOf 59)] 0 False"

lemma replies_rookOnRank:
  "repliesAfter False rookOnRank (quiet PLAYER_PAWN 52 36) =
     Some [quiet ENGINE_PAWN 35 43, enPassantBy True 35 44, quiet ENGINE_KING 3 2,
           quiet ENGINE_KING 3 4, quiet ENGINE_KING 3 10, quiet ENGINE_KING 3 11,
           quiet ENGINE_KING 3 12]"
  by (simp add: run_defs rookOnRank_def boardWith_def repliesAfter_def quiet_def enPassantBy_def
      split del: if_split cong: let_weak_cong option.case_cong_weak prod.case_cong_weak)

lemma replies_kingOnRank:
  "repliesAfter False kingOnRank (quiet PLAYER_PAWN 52 36) =
     Some [quiet ENGINE_PAWN 35 43, quiet ENGINE_KING 32 24, quiet ENGINE_KING 32 25,
           quiet ENGINE_KING 32 33, quiet ENGINE_KING 32 40, quiet ENGINE_KING 32 41]"
  by (simp add: run_defs kingOnRank_def boardWith_def repliesAfter_def quiet_def
      split del: if_split cong: let_weak_cong option.case_cong_weak prod.case_cong_weak)

lemma enPassantAfter_rookOnRank:
  "enPassantAfter False (quiet PLAYER_PAWN 52 36) rookOnRank = Some (boardOf 36)"
  by (simp add: run_defs rookOnRank_def boardWith_def enPassantAfter_def quiet_def
      split del: if_split cong: let_weak_cong option.case_cong_weak prod.case_cong_weak)

lemma enPassantAfter_kingOnRank:
  "enPassantAfter False (quiet PLAYER_PAWN 52 36) kingOnRank = Some (boardOf 36)"
  by (simp add: run_defs kingOnRank_def boardWith_def enPassantAfter_def quiet_def
      split del: if_split cong: let_weak_cong option.case_cong_weak prod.case_cong_weak)

lemma push_generated_rookOnRank:
  "map_option (\<lambda>moves. quiet PLAYER_PAWN 52 36 \<in> set moves) (generatePlayerMoves rookOnRank)
     = Some True"
  by (simp add: run_defs rookOnRank_def boardWith_def quiet_def
      split del: if_split cong: let_weak_cong option.case_cong_weak prod.case_cong_weak)

text \<open>
  Counterexample for claim C7 as stated. In the fixture of the scenario the pawn on d7 is
  legal to push to d5, the push marks d5 in \<open>enPassantCapture\<close>, and the moves generated for
  the engine are the seven below: the second one is the en-passant capture from e5 to d6.
\<close>

theorem enPassant_generated_beside_rook:
  "map_option (\<lambda>moves. quiet PLAYER_PAWN 52 36 \<in> set moves) (generatePlayerMoves rookOnRank)
     = Some True
   \<and> enPassantAfter False (quiet PLAYER_PAWN 52 36) rookOnRank = Some (boardOf 36)
   \<and> repliesAfter False rookOnRank (quiet PLAYER_PAWN 52 36) =
       Some [quiet ENGINE_PAWN 35 43, enPassantBy True 35 44, quiet ENGINE_KING 3 2,
             quiet ENGINE_KING 3 4, quiet ENGINE_KING 3 10, quiet ENGINE_KING 3 11,
             quiet ENGINE_KING 3 12]"
  using push_generated_rookOnRank enPassantAfter_rookOnRank replies_rookOnRank
  by (simp only: simp_thms)

text \<open>
  Claim C7, amended. With the engine's king on e1 the en-passant capture from e5 to d6 is
  generated: the scan along the fifth rank meets the rook on a5 only. With the king on h5,
  the rook on a5 and nothing else on the rank but the two pawns, the same capture is not
  generated.
\<close>

theorem enPassant_rejected_with_king_on_rank:
  "offers rookOnRank (quiet PLAYER_PAWN 52 36) (enPassantBy True 35 44)
   \<and> enPassantAfter False (quiet PLAYER_PAWN 52 36) kingOnRank = Some (boardOf 36)
   \<and> \<not> offers kingOnRank (quiet PLAYER_PAWN 52 36) (enPassantBy True 35 44)"
  by (simp only: offers_def replies_rookOnRank replies_kingOnRank enPassantAfter_kingOnRank
      option.case)
    (simp add: enPassantBy_def quiet_def)

section \<open>The en-passant capture between two rooks\<close>

text \<open>
  \<open>rooksOnRank\<close>: engine pawn on e5 (35), engine king on e1 (3), player pawn on f7 (50),
  player rooks on h5 (32) and a5 (39), player king on e8 (59), the player to move. The
  player pushes the pawn to f5 (34).
\<close>

definition rooksOnRank :: Board where
  "rooksOnRank =
     boardWith [(ENGINE_PAWN, boardOf 35), (ENGINE_KING, boardOf 3), (PLAYER_PAWN, boardOf 50),
                (PLAYER_ROOK, boardOf 32 OR boardOf 39), (PLAYER_KING, boardOf 59)] 0 False"

text \<open>The hits of the scan along the rank from the capturing pawn, once the move is made.\<close>

definition scanAfter :: "Move \<Rightarrow> Board \<Rightarrow> nat \<Rightarrow> bitboard option" where
  "scanAfter move board squareFrom =
     map_option (\<lambda>board1. enPassantPin True board1 squareFrom) (makeMove False move board)"

text \<open>
  Whether the engine's king is attacked once the player's move and the engine's reply are
  made.
\<close>

definition checkedAfter :: "Move \<Rightarrow> Move \<Rightarrow> Board \<Rightarrow> bool option" where
  "checkedAfter move reply board =
     (case makeMove False move board of
        None \<Rightarrow> None
      | Some board1 \<Rightarrow> map_option (isKingInCheck True) (makeMove True reply board1))"

lemma replies_rooksOnRank:
  "repliesAfter False rooksOnRank (quiet PLAYER_PAWN 50 34) =
     Some [quiet ENGINE_PAWN 35 43, quiet ENGINE_KING 3 2, quiet ENGINE_KING 3 4,
           quiet ENGINE_KING 3 10, quiet ENGINE_KING 3 11, quiet ENGINE_KING 3 12]"
  by (simp add: run_defs rooksOnRank_def boardWith_def repliesAfter_def quiet_def
      split del: if_split cong: let_weak_cong option.case_cong_weak prod.case_cong_weak)

lemma enPassantAfter_rooksOnRank:
  "enPassantAfter False (quiet PLAYER_PAWN 50 34) rooksOnRank = Some (boardOf 34)"
  by (simp add: run_defs rooksOnRank_def boardWith_def enPassantAfter_def quiet_def
      split del: if_split cong: let_weak_cong option.case_cong_weak prod.case_cong_weak)

lemma scanAfter_rooksOnRank:
  "scanAfter (quiet PLAYER_PAWN 50 34) rooksOnRank 35 = Some (boardOf 32 OR boardOf 39)"
  by (simp add: run_defs rooksOnRank_def boardWith_def scanAfter_def quiet_def
      split del: if_split cong: let_weak_cong option.case_cong_weak prod.case_cong_weak)

lemma checkedAfter_rooksOnRank:
  "checkedAfter (quiet PLAYER_PAWN 50 34) (enPassantBy True 35 42) rooksOnRank = Some False"
  by (simp add: run_defs rooksOnRank_def boardWith_def checkedAfter_def quiet_def enPassantBy_def
      split del: if_split cong: let_weak_cong option.case_cong_weak prod.case_cong_weak)

text \<open>
  Claim C6, the code at the failing input. After the push to f5 the square f5 is marked in
  \<open>enPassantCapture\<close>. The scan from e5 meets the two rooks and not the engine's king, which
  is on the first rank; the capture from e5 to f6 (42) would not leave the king attacked.
  The generated moves are the six below, and the capture is not among them.
\<close>

theorem enPassant_missing_between_rooks:
  "enPassantAfter False (quiet PLAYER_PAWN 50 34) rooksOnRank = Some (boardOf 34)
   \<and> scanAfter (quiet PLAYER_PAWN 50 34) rooksOnRank 35 = Some (boardOf 32 OR boardOf 39)
   \<and> pieces (position rooksOnRank) ENGINE_KING = boardOf 3
   \<and> checkedAfter (quiet PLAYER_PAWN 50 34) (enPassantBy True 35 42) rooksOnRank = Some False
   \<and> repliesAfter False rooksOnRank (quiet PLAYER_PAWN 50 34) =
       Some [quiet ENGINE_PAWN 35 43, quiet ENGINE_KING 3 2, quiet ENGINE_KING 3 4,
             quiet ENGINE_KING 3 10, quiet ENGINE_KING 3 11, quiet ENGINE_KING 3 12]
   \<and> \<not> offers rooksOnRank (quiet PLAYER_PAWN 50 34) (enPassantBy True 35 42)"
proof -
  have king: "pieces (position rooksOnRank) ENGINE_KING = boardOf 3"
    by (simp add: rooksOnRank_def boardWith_def update_def Let_def)
  have "\<not> offers rooksOnRank (quiet PLAYER_PAWN 50 34) (enPassantBy True 35 42)"
    by (simp only: offers_def replies_rooksOnRank option.case)
      (simp add: enPassantBy_def quiet_def)
  with king show ?thesis
    using enPassantAfter_rooksOnRank scanAfter_rooksOnRank checkedAfter_rooksOnRank
      replies_rooksOnRank by simp
qed

section \<open>The order of the sorted moves\<close>

text \<open>
  \<open>knightCheck\<close>: engine king on h1 (0), bishop on g1 (1), pawn on h2 (8) and queen on g2 (9);
  player knight on g3 (17), giving check, and player king on a8 (63); the engine to move.
  The only legal moves are the two captures of the knight.
\<close>

definition knightCheck :: Board where
  "knightCheck =
     boardWith [(ENGINE_KING, boardOf 0), (ENGINE_BISHOP, boardOf 1), (ENGINE_PAWN, boardOf 8),
                (ENGINE_QUEEN, boardOf 9), (PLAYER_KNIGHT, boardOf 17), (PLAYER_KING, boardOf 63)]
       0 True"

text \<open>The value \<open>score\<close> has after the loop body has run for one move.\<close>

definition scoreOf :: "int \<Rightarrow> Move \<Rightarrow> int" where
  "scoreOf pastEnd move = fst (scoreStep pastEnd (0, - 1, 0) (0, move))"

lemma generated_knightCheck:
  "generateEngineMoves knightCheck =
     Some [captureBy ENGINE_PAWN 8 17 PLAYER_KNIGHT, captureBy ENGINE_QUEEN 9 17 PLAYER_KNIGHT]"
  by (simp add: run_defs knightCheck_def boardWith_def captureBy_def
      split del: if_split cong: let_weak_cong option.case_cong_weak prod.case_cong_weak)

lemma sorted_two_captures:
  "getSortedMoves pastEnd
     [captureBy ENGINE_PAWN 8 17 PLAYER_KNIGHT, captureBy ENGINE_QUEEN 9 17 PLAYER_KNIGHT]
   = [captureBy ENGINE_QUEEN 9 17 PLAYER_KNIGHT, captureBy ENGINE_PAWN 8 17 PLAYER_KNIGHT]"
  by (simp add: getSortedMoves_def selectMoves.simps bestIndex_def scoreStep_def pieceValue_def
      PIECE_VALUES_def captureBy_def enumerate_eq_zip upt_conv_Cons Let_def)

text \<open>
  Claim C2, the code at the failing input. The generated list is pawn takes knight, then
  queen takes knight; their scores are 1050 and 350. The list returned has the queen's
  capture first: the order is ascending, whatever the value read past the end of
  \<open>PIECE_VALUES\<close> is.
\<close>

theorem getSortedMoves_knightCheck:
  "generateEngineMoves knightCheck =
     Some [captureBy ENGINE_PAWN 8 17 PLAYER_KNIGHT, captureBy ENGINE_QUEEN 9 17 PLAYER_KNIGHT]
   \<and> scoreOf pastEnd (captureBy ENGINE_PAWN 8 17 PLAYER_KNIGHT) = 1050
   \<and> scoreOf pastEnd (captureBy ENGINE_QUEEN 9 17 PLAYER_KNIGHT) = 350
   \<and> map_option (getSortedMoves pastEnd) (generateEngineMoves knightCheck) =
       Some [captureBy ENGINE_QUEEN 9 17 PLAYER_KNIGHT, captureBy ENGINE_PAWN 8 17 PLAYER_KNIGHT]"
proof -
  have "scoreOf pastEnd (captureBy ENGINE_PAWN 8 17 PLAYER_KNIGHT) = 1050"
    and "scoreOf pastEnd (captureBy ENGINE_QUEEN 9 17 PLAYER_KNIGHT) = 350"
    by (simp_all add: scoreOf_def scoreStep_def pieceValue_def PIECE_VALUES_def captureBy_def)
  then show ?thesis
    by (simp only: generated_knightCheck option.map sorted_two_captures simp_thms)
qed

section \<open>The search at a position without moves\<close>

lemma selectMoves_Nil: "selectMoves pastEnd [] sortedMoves = sortedMoves"
  by (simp add: selectMoves.simps)

lemma getSortedMoves_Nil: "getSortedMoves pastEnd [] = []"
  by (simp add: getSortedMoves_def selectMoves_Nil)

lemma maximize_no_moves:
  assumes "ply \<le> SEARCH_DEPTH" and "generateEngineMoves board = Some []"
  shows "maximize pastEnd board ply alpha beta
           = Some (if isKingInCheck True board then MIN_EVAL + ply else 0, board)"
  using assms by (simp add: maximize.simps getSortedMoves_Nil)

lemma minimize_no_moves:
  assumes "ply \<le> SEARCH_DEPTH" and "generatePlayerMoves board = Some []"
  shows "minimize pastEnd board ply alpha beta
           = Some (if isKingInCheck False board then MAX_EVAL - ply else 0, board)"
  using assms by (simp add: minimize.simps getSortedMoves_Nil)

text \<open>
  \<open>engineMated\<close>: engine king on h1 (0); player queen on g2 (9), guarded by the player's king
  on g3 (17); the engine to move. \<open>playerStalemated\<close>: player king on a8 (63); engine queen on
  b6 (46), engine king on h1 (0); the player to move.
\<close>

definition engineMated :: Board where
  "engineMated =
     boardWith [(ENGINE_KING, boardOf 0), (PLAYER_QUEEN, boardOf 9), (PLAYER_KING, boardOf 17)]
       0 True"

definition playerStalemated :: Board where
  "playerStalemated =
     boardWith [(ENGINE_KING, boardOf 0), (ENGINE_QUEEN, boardOf 46), (PLAYER_KING, boardOf 63)]
       0 False"

lemma engineMated_moves: "generateEngineMoves engineMated = Some []"
  by (simp add: run_defs engineMated_def boardWith_def
      split del: if_split cong: let_weak_cong option.case_cong_weak prod.case_cong_weak)

lemma engineMated_check: "isKingInCheck True engineMated"
  by (simp add: run_defs engineMated_def boardWith_def
      split del: if_split cong: let_weak_cong option.case_cong_weak prod.case_cong_weak)

lemma playerStalemated_moves: "generatePlayerMoves playerStalemated = Some []"
  by (simp add: run_defs playerStalemated_def boardWith_def
      split del: if_split cong: let_weak_cong option.case_cong_weak prod.case_cong_weak)

lemma playerStalemated_check: "\<not> isKingInCheck False playerStalemated"
  by (simp add: run_defs playerStalemated_def boardWith_def
      split del: if_split cong: let_weak_cong option.case_cong_weak prod.case_cong_weak)

text \<open>
  Claim C4. At a ply not beyond \<open>SEARCH_DEPTH\<close>, when the generation for the side to move
  gives no move, \<open>maximize\<close> returns \<open>MIN_EVAL + ply\<close> if the engine's king is in check and 0
  otherwise, and \<open>minimize\<close> returns \<open>MAX_EVAL - ply\<close> if the player's king is in check and 0
  otherwise; the board is returned as it was.
\<close>

theorem search_without_moves:
  assumes "ply \<le> SEARCH_DEPTH"
  shows "(generateEngineMoves board = Some [] \<longrightarrow>
            maximize pastEnd board ply alpha beta
              = Some (if isKingInCheck True board then MIN_EVAL + ply else 0, board))
         \<and> (generatePlayerMoves board = Some [] \<longrightarrow>
            minimize pastEnd board ply alpha beta
              = Some (if isKingInCheck False board then MAX_EVAL - ply else 0, board))"
  using assms by (simp add: maximize_no_moves minimize_no_moves)

theorem search_without_moves_witness:
  "2 \<le> SEARCH_DEPTH
   \<and> generateEngineMoves engineMated = Some []
   \<and> isKingInCheck True engineMated
   \<and> maximize 0 engineMated 2 MIN_EVAL MAX_EVAL = Some (MIN_EVAL + 2, engineMated)
   \<and> 3 \<le> SEARCH_DEPTH
   \<and> generatePlayerMoves playerStalemated = Some []
   \<and> \<not> isKingInCheck False playerStalemated
   \<and> minimize 0 playerStalemated 3 MIN_EVAL MAX_EVAL = Some (0, playerStalemated)"
proof -
  have depth: "(2 :: int) \<le> SEARCH_DEPTH" "(3 :: int) \<le> SEARCH_DEPTH"
    by (simp_all add: SEARCH_DEPTH_def)
  from search_without_moves [OF depth(1), of engineMated 0 MIN_EVAL MAX_EVAL]
    search_without_moves [OF depth(2), of playerStalemated 0 MIN_EVAL MAX_EVAL]
  show ?thesis
    using depth engineMated_moves engineMated_check playerStalemated_moves
      playerStalemated_check by simp
qed

section \<open>The range of the scores of the search\<close>

















section \<open>The shape of the generated moves\<close>

lemma those_Some: "those xs = Some ys \<Longrightarrow> xs = map Some ys"
proof (induction xs arbitrary: ys)
  case Nil
  then show ?case by simp
next
  case (Cons x xs)
  then show ?case
    by (cases x; cases "those xs") auto
qed

lemma collect_mem:
  assumes "collect xs = Some ys" and "y \<in> set ys"
  obtains zs where "Some zs \<in> set xs" and "y \<in> set zs"
proof -
  from assms(1) obtain zss where those: "those xs = Some zss" and ys: "ys = concat zss"
    by (auto simp: collect_def)
  from assms(2) ys obtain zs where zs: "zs \<in> set zss" "y \<in> set zs"
    by auto
  from those_Some [OF those] zs(1) have "Some zs \<in> set xs"
    by simp
  then show ?thesis
    using zs(2) by (rule that)
qed

lemma pushMoves_mem:
  assumes "pushMoves isEngine board squareFrom piece moves = Some ms" and "m \<in> set ms"
  shows "moving m = piece \<and> mfrom m = squareFrom \<and> bit moves (mto m)"
proof -
  from assms(1)
  have "map (pushMove isEngine board squareFrom piece) (squaresOf moves) = map Some ms"
    unfolding pushMoves_def by (rule those_Some)
  moreover from assms(2) have "Some m \<in> set (map Some ms)"
    by simp
  ultimately have "Some m \<in> set (map (pushMove isEngine board squareFrom piece) (squaresOf moves))"
    by simp
  then obtain squareTo where to: "squareTo \<in> set (squaresOf moves)"
    and m: "pushMove isEngine board squareFrom piece squareTo = Some m"
    by auto
  from to have "bit moves squareTo"
    by (simp add: squaresOf_props)
  with m show ?thesis
    by (auto simp: pushMove_def split: option.splits)
qed

lemma generateKnightMoves_moving:
  assumes "generateKnightMoves isEngine board gen = Some ms" and "m \<in> set ms"
  shows "moving m = (if isEngine then ENGINE_KNIGHT else PLAYER_KNIGHT)"
proof -
  from assms obtain zs where "Some zs \<in> set (map (knightMovesFrom isEngine board gen)
      (squaresOf (pieces (position board) (if isEngine then ENGINE_KNIGHT else PLAYER_KNIGHT)
                  AND NOT (cardinalPins gen OR ordinalPins gen))))" and "m \<in> set zs"
    unfolding generateKnightMoves_def by (rule collect_mem)
  then obtain squareFrom where "knightMovesFrom isEngine board gen squareFrom = Some zs"
    by auto
  with \<open>m \<in> set zs\<close> show ?thesis
    by (auto simp: knightMovesFrom_def Let_def dest: pushMoves_mem)
qed

lemma generateBishopMoves_moving:
  assumes "generateBishopMoves isEngine board gen = Some ms" and "m \<in> set ms"
  shows "moving m = (if isEngine then ENGINE_BISHOP else PLAYER_BISHOP)"
proof -
  from assms obtain zs where "Some zs \<in> set (map (bishopMovesFrom isEngine board gen)
      (squaresOf (pieces (position board) (if isEngine then ENGINE_BISHOP else PLAYER_BISHOP)
                  AND NOT (cardinalPins gen))))" and "m \<in> set zs"
    unfolding generateBishopMoves_def by (rule collect_mem)
  then obtain squareFrom where "bishopMovesFrom isEngine board gen squareFrom = Some zs"
    by auto
  with \<open>m \<in> set zs\<close> show ?thesis
    by (auto simp: bishopMovesFrom_def Let_def dest: pushMoves_mem)
qed

lemma generateRookMoves_moving:
  assumes "generateRookMoves isEngine board gen = Some ms" and "m \<in> set ms"
  shows "moving m = (if isEngine then ENGINE_ROOK else PLAYER_ROOK)"
proof -
  from assms obtain zs where "Some zs \<in> set (map (rookMovesFrom isEngine board gen)
      (squaresOf (pieces (position board) (if isEngine then ENGINE_ROOK else PLAYER_ROOK)
                  AND NOT (ordinalPins gen))))" and "m \<in> set zs"
    unfolding generateRookMoves_def by (rule collect_mem)
  then obtain squareFrom where "rookMovesFrom isEngine board gen squareFrom = Some zs"
    by auto
  with \<open>m \<in> set zs\<close> show ?thesis
    by (auto simp: rookMovesFrom_def Let_def dest: pushMoves_mem)
qed

lemma generateQueenMoves_moving:
  assumes "generateQueenMoves isEngine board gen = Some ms" and "m \<in> set ms"
  shows "moving m = (if isEngine then ENGINE_QUEEN else PLAYER_QUEEN)"
proof -
  from assms obtain zs where "Some zs \<in> set (map (queenMovesFrom isEngine board gen)
      (squaresOf (pieces (position board) (if isEngine then ENGINE_QUEEN else PLAYER_QUEEN))))"
    and "m \<in> set zs"
    unfolding generateQueenMoves_def by (rule collect_mem)
  then obtain squareFrom where "queenMovesFrom isEngine board gen squareFrom = Some zs"
    by auto
  with \<open>m \<in> set zs\<close> show ?thesis
    by (auto simp: queenMovesFrom_def Let_def dest: pushMoves_mem)
qed

lemma generateKingMoves_moving:
  assumes "generateKingMoves isEngine board = Some ms" and "m \<in> set ms"
  shows "moving m = (if isEngine then ENGINE_KING else PLAYER_KING)"
  using assms by (auto simp: generateKingMoves_def Let_def dest: pushMoves_mem)

lemma bit_RANK0: "bit RANK0 n \<longleftrightarrow> n < 8"
proof -
  have "bit (mask 8 :: bitboard) n \<longleftrightarrow> n < 8"
    by (auto simp: bit_mask_iff)
  moreover have "RANK0 = mask 8"
    by (simp add: RANK0_def mask_eq_exp_minus_1)
  ultimately show ?thesis
    by (simp only:)
qed

lemma bit_ranks:
  "bit RANK2 n \<longleftrightarrow> 16 \<le> n \<and> n < 24"
  "bit RANK3 n \<longleftrightarrow> 24 \<le> n \<and> n < 32"
  "bit RANK4 n \<longleftrightarrow> 32 \<le> n \<and> n < 40"
  "bit RANK5 n \<longleftrightarrow> 40 \<le> n \<and> n < 48"
  by (auto simp: RANK5_def RANK4_def RANK3_def RANK2_def RANK1_def bit_push_bit_iff bit_RANK0)

text \<open>
  \<open>pawnShape\<close>: a move over 16 squares ends on the rank the double pushes of its side end on.
\<close>

definition pawnShape :: "bool \<Rightarrow> Move \<Rightarrow> bool" where
  "pawnShape isEngine m \<longleftrightarrow>
     (\<bar>int (mto m) - int (mfrom m)\<bar> = 16 \<longrightarrow> bit (if isEngine then RANK3 else RANK4) (mto m))"

lemma u8_small:
  assumes "- 256 \<le> x" and "x < 256"
  shows "int (u8 x) = (if 0 \<le> x then x else x + 256)"
proof (cases "0 \<le> x")
  case True
  with assms show ?thesis
    by (simp add: u8_def)
next
  case False
  have "x mod 256 = (x + 256) mod 256"
    by simp
  also have "\<dots> = x + 256"
    using assms False by (intro mod_pos_pos_trivial) simp_all
  finally show ?thesis
    using False assms by (simp add: u8_def)
qed

lemma u8_gap:
  assumes "k \<le> 64" and "d \<in> {- 9, - 8, - 7, 7, 8, 9}"
  shows "\<bar>int k - int (u8 (int k + d))\<bar> \<noteq> 16" and "\<bar>int (u8 (int k + d)) - int k\<bar> \<noteq> 16"
proof -
  have "- 256 \<le> int k + d" and "int k + d < 256"
    using assms by auto
  then have "int (u8 (int k + d)) = (if 0 \<le> int k + d then int k + d else int k + d + 256)"
    by (rule u8_small)
  with assms show "\<bar>int k - int (u8 (int k + d))\<bar> \<noteq> 16"
    and "\<bar>int (u8 (int k + d)) - int k\<bar> \<noteq> 16"
    by (auto split: if_splits)
qed

lemma pawnMovesTo_mem:
  assumes "m \<in> set (pawnMovesTo isEngine squareFrom squareTo c)"
  shows "mfrom m = squareFrom \<and> mto m = squareTo"
  using assms
  by (auto simp: pawnMovesTo_def promotionMove_def promotionTypes_def split: if_splits)

lemma singlePushTo_shape:
  assumes "squareTo < 64" and "m \<in> set (singlePushTo isEngine gen squareTo)"
  shows "pawnShape isEngine m"
proof -
  from assms(2) have "mto m = squareTo"
    and "mfrom m = u8 (int squareTo + (if isEngine then - 8 else 8))"
    by (auto simp: singlePushTo_def Let_def dest: pawnMovesTo_mem split: if_splits)
  with u8_gap(1) [of squareTo "if isEngine then - 8 else 8"] assms(1) show ?thesis
    by (simp add: pawnShape_def)
qed

lemma doublePushTo_shape:
  assumes "bit (if isEngine then RANK3 else RANK4) squareTo"
    and "m \<in> set (doublePushTo isEngine gen squareTo)"
  shows "pawnShape isEngine m"
  using assms by (auto simp: doublePushTo_def Let_def pawnShape_def split: if_splits)

lemma pawnCaptureTo_shape:
  assumes "squareTo < 64" and "offset = 7 \<or> offset = 9"
    and "pawnCaptureTo isEngine board gen offset squareTo = Some ms" and "m \<in> set ms"
  shows "pawnShape isEngine m"
proof -
  from assms(3,4) have "mto m = squareTo"
    and "mfrom m = u8 (int squareTo + (if isEngine then - offset else offset))"
    by (auto simp: pawnCaptureTo_def Let_def dest: pawnMovesTo_mem
        split: if_splits option.splits)
  with u8_gap(1) [of squareTo "if isEngine then - offset else offset"] assms(1,2)
  show ?thesis
    by (auto simp: pawnShape_def)
qed

lemma tzcnt_le: "tzcnt n board \<le> n"
  by (induction n arbitrary: board) (auto simp: Let_def)

lemma enPassantMove_shape:
  assumes "offset = 7 \<or> offset = 9"
    and "m \<in> set (enPassantMove isEngine board gen candidates towardsPawn offset)"
  shows "pawnShape isEngine m"
proof -
  define squareFrom where "squareFrom =
    getLeastSquare (if towardsPawn then push_bit 1 candidates else drop_bit 1 candidates)"
  have le: "squareFrom \<le> 64"
    unfolding squareFrom_def getLeastSquare_def by (rule tzcnt_le)
  from assms(2) have "mfrom m = squareFrom"
    and "mto m = u8 (int squareFrom + (if isEngine then offset else - offset))"
    by (auto simp: enPassantMove_def Let_def squareFrom_def split: if_splits)
  with u8_gap(2) [of squareFrom "if isEngine then offset else - offset"] le assms(1)
  show ?thesis
    by (auto simp: pawnShape_def)
qed

lemma double_push_rank:
  assumes "bit ((if isEngine then push_bit 8 (x AND RANK2) else drop_bit 8 (x AND RANK5))
                AND e AND b) n"
  shows "bit (if isEngine then RANK3 else RANK4) n"
  using assms
  by (auto simp: bit_and_iff bit_push_bit_iff bit_drop_bit_eq bit_ranks split: if_splits)

lemma generatePawnMoves_shape:
  assumes "generatePawnMoves isEngine board gen = Some ms" and "m \<in> set ms"
  shows "pawnShape isEngine m"
proof -
  define pawns where "pawns = pieces (position board) (pawnType isEngine)"
  define singlePush0 where "singlePush0 =
    (if isEngine then push_bit 8 (pawns AND NOT (ordinalPins gen))
     else drop_bit 8 (pawns AND NOT (ordinalPins gen))) AND emptySquares board"
  define doublePush where "doublePush =
    (if isEngine then push_bit 8 (singlePush0 AND RANK2) else drop_bit 8 (singlePush0 AND RANK5))
    AND emptySquares board AND blockerSquares gen"
  define pawns1 where "pawns1 = pawns AND NOT (cardinalPins gen)"
  define enemy where "enemy = (if isEngine then playerPieces board else enginePieces board)"
  define leftAttacks where "leftAttacks =
    (if isEngine then push_bit 9 (pawns1 AND NOT FILE7) else drop_bit 9 (pawns1 AND NOT FILE0))
    AND enemy AND blockerSquares gen"
  define rightAttacks where "rightAttacks =
    (if isEngine then push_bit 7 (pawns1 AND NOT FILE0) else drop_bit 7 (pawns1 AND NOT FILE7))
    AND enemy AND blockerSquares gen"
  define parts where "parts =
    [Some (concat (map (singlePushTo isEngine gen)
             (squaresOf (singlePush0 AND blockerSquares gen)))),
     Some (concat (map (doublePushTo isEngine gen) (squaresOf doublePush))),
     collect (map (pawnCaptureTo isEngine board gen 9) (squaresOf leftAttacks)),
     collect (map (pawnCaptureTo isEngine board gen 7) (squaresOf rightAttacks)),
     Some (enPassantMoves isEngine board gen pawns1)]"
  have "generatePawnMoves isEngine board gen = collect parts"
    by (simp add: generatePawnMoves_def Let_def parts_def pawns_def singlePush0_def
        doublePush_def pawns1_def enemy_def leftAttacks_def rightAttacks_def and.assoc)
  with assms obtain zs where zs: "Some zs \<in> set parts" and m: "m \<in> set zs"
    by (metis collect_mem)
  have below: "n < 64" if "bit w n" for w :: bitboard and n
    using that by (auto dest: bit_imp_le_length)
  from zs consider
      (single) "zs = concat (map (singlePushTo isEngine gen)
                  (squaresOf (singlePush0 AND blockerSquares gen)))"
    | (double) "zs = concat (map (doublePushTo isEngine gen) (squaresOf doublePush))"
    | (left) "collect (map (pawnCaptureTo isEngine board gen 9) (squaresOf leftAttacks)) = Some zs"
    | (right) "collect (map (pawnCaptureTo isEngine board gen 7) (squaresOf rightAttacks)) = Some zs"
    | (passing) "zs = enPassantMoves isEngine board gen pawns1"
    by (auto simp: parts_def)
  then show ?thesis
  proof cases
    case single
    with m obtain squareTo where "bit (singlePush0 AND blockerSquares gen) squareTo"
      and "m \<in> set (singlePushTo isEngine gen squareTo)"
      by (auto simp: squaresOf_props)
    then show ?thesis
      by (auto intro: singlePushTo_shape dest: below)
  next
    case double
    with m obtain squareTo where "bit doublePush squareTo"
      and "m \<in> set (doublePushTo isEngine gen squareTo)"
      by (auto simp: squaresOf_props)
    then show ?thesis
      unfolding doublePush_def by (auto intro: doublePushTo_shape dest: double_push_rank)
  next
    case left
    with m obtain ys where
      "Some ys \<in> set (map (pawnCaptureTo isEngine board gen 9) (squaresOf leftAttacks))"
      and "m \<in> set ys"
      by (metis collect_mem)
    then obtain squareTo where "bit leftAttacks squareTo"
      and "pawnCaptureTo isEngine board gen 9 squareTo = Some ys"
      by (auto simp: squaresOf_props)
    with \<open>m \<in> set ys\<close> show ?thesis
      by (auto intro: pawnCaptureTo_shape dest: below)
  next
    case right
    with m obtain ys where
      "Some ys \<in> set (map (pawnCaptureTo isEngine board gen 7) (squaresOf rightAttacks))"
      and "m \<in> set ys"
      by (metis collect_mem)
    then obtain squareTo where "bit rightAttacks squareTo"
      and "pawnCaptureTo isEngine board gen 7 squareTo = Some ys"
      by (auto simp: squaresOf_props)
    with \<open>m \<in> set ys\<close> show ?thesis
      by (auto intro: pawnCaptureTo_shape dest: below)
  next
    case passing
    with m show ?thesis
      by (auto simp: enPassantMoves_def Let_def intro: enPassantMove_shape split: if_splits)
  qed
qed

lemma generateMoves_shape:
  assumes "generateMoves isEngine board = Some ms" and "m \<in> set ms"
    and "moving m = pawnType isEngine"
  shows "pawnShape isEngine m"
proof -
  define gen where "gen = \<lparr>blockerSquares = getBlockerSquares isEngine board,
    cardinalPins = getCardinalPins isEngine board, ordinalPins = getOrdinalPins isEngine board\<rparr>"
  define parts where "parts =
    [generatePawnMoves isEngine board gen, generateKnightMoves isEngine board gen,
     generateKingMoves isEngine board, generateBishopMoves isEngine board gen,
     generateRookMoves isEngine board gen, generateQueenMoves isEngine board gen]"
  from assms(1) have "collect parts = Some ms"
    by (simp add: generateMoves_def Let_def parts_def gen_def split: if_splits)
  with assms(2) obtain zs where zs: "Some zs \<in> set parts" and m: "m \<in> set zs"
    by (metis collect_mem)
  from zs consider
      (pawn) "generatePawnMoves isEngine board gen = Some zs"
    | (knight) "generateKnightMoves isEngine board gen = Some zs"
    | (king) "generateKingMoves isEngine board = Some zs"
    | (bishop) "generateBishopMoves isEngine board gen = Some zs"
    | (rook) "generateRookMoves isEngine board gen = Some zs"
    | (queen) "generateQueenMoves isEngine board gen = Some zs"
    by (auto simp: parts_def)
  then show ?thesis
  proof cases
    case pawn
    then show ?thesis using m by (rule generatePawnMoves_shape)
  next
    case knight
    from generateKnightMoves_moving [OF this m] assms(3) show ?thesis
      by (simp add: pawnType_def split: if_splits)
  next
    case king
    from generateKingMoves_moving [OF this m] assms(3) show ?thesis
      by (simp add: pawnType_def split: if_splits)
  next
    case bishop
    from generateBishopMoves_moving [OF this m] assms(3) show ?thesis
      by (simp add: pawnType_def split: if_splits)
  next
    case rook
    from generateRookMoves_moving [OF this m] assms(3) show ?thesis
      by (simp add: pawnType_def split: if_splits)
  next
    case queen
    from generateQueenMoves_moving [OF this m] assms(3) show ?thesis
      by (simp add: pawnType_def split: if_splits)
  qed
qed

section \<open>The en-passant mark after a move\<close>

text \<open>
  \<open>besidePawn isEngine p squareTo\<close>: a pawn of the other side stands on a square next to
  \<open>squareTo\<close> on the rank where the double pushes of this side end.
\<close>

definition besidePawn :: "bool \<Rightarrow> Position \<Rightarrow> nat \<Rightarrow> bool" where
  "besidePawn isEngine p squareTo =
     (let there = (if isEngine then RANK3 else RANK4)
                  AND pieces p (if isEngine then PLAYER_PAWN else ENGINE_PAWN)
      in bit there (Suc squareTo) \<or> (0 < squareTo \<and> bit there (squareTo - 1)))"

lemma boardOf_and: "(boardOf square AND c \<noteq> 0) = bit c square"
proof (cases "square < 64")
  case True
  then show ?thesis
    using and_boardOf [of square c] by (simp add: and.commute)
next
  case False
  then have "boardOf square = 0"
    by (simp add: boardOf_def)
  moreover have "\<not> bit c square"
    using False by (auto dest: bit_imp_le_length)
  ultimately show ?thesis by simp
qed

lemma push_boardOf: "push_bit k (boardOf square) = boardOf (k + square)"
  unfolding boardOf_def by (rule push_bit_push_bit)

lemma drop_boardOf:
  assumes "square < 64"
  shows "drop_bit k (boardOf square) = (if k \<le> square then boardOf (square - k) else 0)"
  by (rule bit_eqI) (use assms in \<open>auto simp: bit_drop_bit_eq bit_boardOf\<close>)

lemma beside_word:
  assumes "squareTo < 64"
  shows "((push_bit 1 (boardOf squareTo) OR drop_bit 1 (boardOf squareTo)) AND r AND q \<noteq> 0)
     = (bit (r AND q) (Suc squareTo) \<or> (0 < squareTo \<and> bit (r AND q) (squareTo - 1)))"
proof -
  have "(push_bit 1 (boardOf squareTo) OR drop_bit 1 (boardOf squareTo)) AND r AND q
      = (boardOf (1 + squareTo) AND (r AND q))
        OR ((if 1 \<le> squareTo then boardOf (squareTo - 1) else 0) AND (r AND q))"
    by (simp only: push_boardOf drop_boardOf [OF assms] and.assoc bit.conj_disj_distrib2)
  also have "\<dots> \<noteq> 0 \<longleftrightarrow>
      boardOf (1 + squareTo) AND (r AND q) \<noteq> 0
      \<or> (if 1 \<le> squareTo then boardOf (squareTo - 1) else 0) AND (r AND q) \<noteq> 0"
    by (simp only: or_eq_0_iff de_Morgan_conj)
  also have "\<dots> \<longleftrightarrow>
      bit (r AND q) (Suc squareTo) \<or> (0 < squareTo \<and> bit (r AND q) (squareTo - 1))"
    by (cases "1 \<le> squareTo") (simp_all only: boardOf_and if_True if_False, auto)
  finally show ?thesis .
qed

lemma placeMoving_fields:
  "enPassantCapture (placeMoving isEngine move p) = enPassantCapture p"
  by (simp add: placeMoving_def Let_def)

lemma removeCaptured_fields:
  "enPassantCapture (removeCaptured isEngine move enPassant p) = enPassantCapture p"
  by (simp add: removeCaptured_def Let_def)

lemma moveKing_fields: "enPassantCapture (moveKing isEngine move p) = enPassantCapture p"
  by (simp add: moveKing_def Let_def)

lemma moveRook_fields: "enPassantCapture (moveRook isEngine move p) = enPassantCapture p"
  by (simp add: moveRook_def Let_def)

lemma movePawn_pieces: "pieces (movePawn isEngine move p) = pieces p"
  by (simp add: movePawn_def Let_def)

lemma movePawn_mark:
  assumes "mto move < 64"
  shows "enPassantCapture (movePawn isEngine move p) =
     (if \<bar>int (mto move) - int (mfrom move)\<bar> = 16 \<and> besidePawn isEngine p (mto move)
      then boardOf (mto move) else enPassantCapture p)"
proof -
  have "enPassantCapture (if c then p\<lparr>enPassantCapture := b\<rparr> else p)
      = (if c then b else enPassantCapture p)" for c b
    by simp
  then show ?thesis
    unfolding movePawn_def Let_def besidePawn_def beside_word [OF assms] .
qed

lemma besidePawn_pieces:
  "pieces p1 = pieces p \<Longrightarrow> besidePawn isEngine p1 squareTo = besidePawn isEngine p squareTo"
  by (simp add: besidePawn_def)

lemma makeMove_mark:
  assumes "makeMove isEngine move board = Some board1"
  shows "enPassantCapture (position board1) =
     (if moving move = pawnType isEngine \<and> \<bar>int (mto move) - int (mfrom move)\<bar> = 16
         \<and> besidePawn isEngine (position board1) (mto move)
      then boardOf (mto move) else 0)"
proof -
  define p2 where "p2 = removeCaptured isEngine move (enPassantCapture (position board))
    (placeMoving isEngine move ((position board)\<lparr>enPassantCapture := 0\<rparr>))"
  define p3 where "p3 =
    (if moving move = (if isEngine then ENGINE_KING else PLAYER_KING)
     then moveKing isEngine move p2
     else if moving move = (if isEngine then ENGINE_ROOK else PLAYER_ROOK)
     then moveRook isEngine move p2
     else if moving move = (if isEngine then ENGINE_PAWN else PLAYER_PAWN)
     then movePawn isEngine move p2
     else p2)"
  have clear: "enPassantCapture p2 = 0"
    by (simp add: p2_def removeCaptured_fields placeMoving_fields)
  from assms have inside: "mto move < 64"
    by (auto simp: makeMove_def split: if_splits)
  from assms have "position board1 = p3"
    by (auto simp: makeMove_def Let_def p3_def p2_def update_fields split: if_splits)
  moreover have "enPassantCapture p3 =
     (if moving move = pawnType isEngine \<and> \<bar>int (mto move) - int (mfrom move)\<bar> = 16
         \<and> besidePawn isEngine p3 (mto move)
      then boardOf (mto move) else 0)"
  proof (cases "moving move = pawnType isEngine")
    case True
    then have "p3 = movePawn isEngine move p2"
      by (auto simp: p3_def pawnType_def)
    then show ?thesis
      using True clear
      by (simp add: movePawn_mark [OF inside] movePawn_pieces
          besidePawn_pieces [of "movePawn isEngine move p2" p2])
  next
    case False
    then show ?thesis
      by (auto simp: p3_def pawnType_def clear moveKing_fields moveRook_fields)
  qed
  ultimately show ?thesis by simp
qed

lemma countSetBits_boardOf: "countSetBits (boardOf square) \<le> 1"
proof -
  have "set (squaresOf (boardOf square)) \<subseteq> {square}"
    by (auto simp: squaresOf_props bit_boardOf)
  then have "card (set (squaresOf (boardOf square))) \<le> card {square}"
    by (intro card_mono) simp_all
  moreover have "distinct (squaresOf (boardOf square))"
    by (simp add: squaresOf_props)
  ultimately show ?thesis
    by (simp add: countSetBits_squaresOf distinct_card)
qed

lemma countSetBits_zero: "countSetBits 0 = 0"
  by (simp add: countSetBits_squaresOf squaresOf_0)

lemma makeMove_capture_passing:
  assumes made: "makeMove isEngine move board = Some board1"
    and passing: "mtype move = EN_PASSANT"
    and pawn: "moving move = pawnType isEngine"
    and enemy: "captured move = pawnType (\<not> isEngine)"
  shows "pieces (position board1) (pawnType (\<not> isEngine))
           = pieces (position board) (pawnType (\<not> isEngine))
             XOR enPassantCapture (position board)"
  using made passing pawn enemy
  by (cases isEngine)
    (auto simp: makeMove_def Let_def update_fields pawnType_def movePawn_pieces
      removeCaptured_def placeMoving_def split: if_splits)

lemma boardOf_on_rank:
  assumes "bit r square"
  shows "boardOf square AND r = boardOf square"
  by (rule bit_eqI) (use assms in \<open>auto simp: bit_and_iff bit_boardOf\<close>)

text \<open>
  \<open>pushedBeside\<close>: the position of \<open>rookOnRank\<close> after the pawn on d7 has gone to d5 (36),
  with d5 marked in \<open>enPassantCapture\<close> and the engine to move.
\<close>

definition pushedBeside :: Board where
  "pushedBeside =
     boardWith [(ENGINE_PAWN, boardOf 35), (ENGINE_KING, boardOf 3), (PLAYER_PAWN, boardOf 36),
                (PLAYER_ROOK, boardOf 39), (PLAYER_KING, boardOf 59)] (boardOf 36) True"

text \<open>
  Claim C8. The mark \<open>enPassantCapture\<close> that \<open>makeMove\<close> leaves does not depend on the mark
  before: it is the single bit of the destination square if the move is one of a pawn of the
  moving side over 16 squares and a pawn of the other side stands next to the destination on
  the rank of the double pushes (\<open>RANK3\<close> for the engine, \<open>RANK4\<close> for the player), and 0
  otherwise; so it has at most one bit set. For a move that the generator produced for the
  position, a mark that is not 0 lies on that rank. The mark from before is what an
  en-passant capture removes from the pawns of the other side.
\<close>

theorem makeMove_enPassantCapture:
  assumes "makeMove isEngine move board = Some board1"
  shows "enPassantCapture (position board1) =
           (if moving move = pawnType isEngine
               \<and> \<bar>int (mto move) - int (mfrom move)\<bar> = 16
               \<and> besidePawn isEngine (position board1) (mto move)
            then boardOf (mto move) else 0)
         \<and> countSetBits (enPassantCapture (position board1)) \<le> 1
         \<and> (generateMoves isEngine board = Some moves \<longrightarrow> move \<in> set moves \<longrightarrow>
              enPassantCapture (position board1) \<noteq> 0 \<longrightarrow>
              enPassantCapture (position board1) AND (if isEngine then RANK3 else RANK4)
                = enPassantCapture (position board1))
         \<and> (mtype move = EN_PASSANT \<longrightarrow> moving move = pawnType isEngine \<longrightarrow>
              captured move = pawnType (\<not> isEngine) \<longrightarrow>
              pieces (position board1) (pawnType (\<not> isEngine))
                = pieces (position board) (pawnType (\<not> isEngine))
                  XOR enPassantCapture (position board))"
proof -
  note mark = makeMove_mark [OF assms]
  have count: "countSetBits (enPassantCapture (position board1)) \<le> 1"
  proof (cases "enPassantCapture (position board1) = 0")
    case True
    then show ?thesis
      by (simp add: countSetBits_zero)
  next
    case False
    with mark have "enPassantCapture (position board1) = boardOf (mto move)"
      by (auto split: if_splits)
    then show ?thesis
      by (simp only: countSetBits_boardOf)
  qed
  have rank: "enPassantCapture (position board1) AND (if isEngine then RANK3 else RANK4)
      = enPassantCapture (position board1)"
    if generated: "generateMoves isEngine board = Some moves" "move \<in> set moves"
      and marked: "enPassantCapture (position board1) \<noteq> 0"
  proof -
    from marked mark have pawn: "moving move = pawnType isEngine"
      and far: "\<bar>int (mto move) - int (mfrom move)\<bar> = 16"
      and single: "enPassantCapture (position board1) = boardOf (mto move)"
      by (auto split: if_splits)
    from generateMoves_shape [OF generated pawn] far
    have "bit (if isEngine then RANK3 else RANK4) (mto move)"
      by (simp add: pawnShape_def)
    then show ?thesis
      unfolding single by (rule boardOf_on_rank)
  qed
  from mark count rank makeMove_capture_passing [OF assms] show ?thesis
    by blast
qed

lemma enPassantBy_pushedBeside:
  "map_option (\<lambda>board1. pieces (position board1) PLAYER_PAWN)
     (makeMove True (enPassantBy True 35 44) pushedBeside) = Some 0"
  by (simp add: run_defs pushedBeside_def boardWith_def enPassantBy_def
      split del: if_split cong: let_weak_cong option.case_cong_weak prod.case_cong_weak)

theorem makeMove_enPassantCapture_witness:
  "makeMove False (quiet PLAYER_PAWN 52 36) rookOnRank \<noteq> None
   \<and> generateMoves False rookOnRank \<noteq> None
   \<and> quiet PLAYER_PAWN 52 36 \<in> set (the (generateMoves False rookOnRank))
   \<and> enPassantAfter False (quiet PLAYER_PAWN 52 36) rookOnRank = Some (boardOf 36)
   \<and> boardOf 36 \<noteq> (0 :: bitboard)
   \<and> countSetBits (boardOf 36) \<le> 1
   \<and> boardOf 36 AND RANK4 = boardOf 36
   \<and> makeMove True (enPassantBy True 35 44) pushedBeside \<noteq> None
   \<and> pieces (position pushedBeside) PLAYER_PAWN XOR enPassantCapture (position pushedBeside) = 0
   \<and> enPassantAfter True (enPassantBy True 35 44) pushedBeside = Some 0"
proof -
  define pushed where "pushed = the (makeMove False (quiet PLAYER_PAWN 52 36) rookOnRank)"
  define moves where "moves = the (generateMoves False rookOnRank)"
  define taken where "taken = the (makeMove True (enPassantBy True 35 44) pushedBeside)"
  have made: "makeMove False (quiet PLAYER_PAWN 52 36) rookOnRank = Some pushed"
    by (simp add: makeMove_def quiet_def Let_def pushed_def)
  have generated: "generateMoves False rookOnRank = Some moves"
    and among: "quiet PLAYER_PAWN 52 36 \<in> set moves"
    using push_generated_rookOnRank
    by (auto simp: generatePlayerMoves_def moves_def)
  have single: "enPassantCapture (position pushed) = boardOf 36"
    using enPassantAfter_rookOnRank made by (simp add: enPassantAfter_def)
  have nonzero: "boardOf 36 \<noteq> (0 :: bitboard)"
    using boardOf_and [of 36 "boardOf 36"] by (simp add: bit_boardOf)
  have made2: "makeMove True (enPassantBy True 35 44) pushedBeside = Some taken"
    by (simp add: makeMove_def enPassantBy_def Let_def taken_def)
  have gone: "pieces (position taken) PLAYER_PAWN = 0"
    using enPassantBy_pushedBeside made2 by simp
  note pushing = makeMove_enPassantCapture [OF made, of moves]
  note taking = makeMove_enPassantCapture [OF made2, of moves]
  have "countSetBits (enPassantCapture (position pushed)) \<le> 1"
    by (rule pushing [THEN conjunct2, THEN conjunct1])
  moreover have "enPassantCapture (position pushed) AND RANK4 = enPassantCapture (position pushed)"
    using pushing [THEN conjunct2, THEN conjunct2, THEN conjunct1] generated among single nonzero
    by simp
  ultimately have first: "countSetBits (boardOf 36) \<le> 1 \<and> boardOf 36 AND RANK4 = boardOf 36"
    by (simp only: single simp_thms)
  have second: "pieces (position pushedBeside) PLAYER_PAWN
        XOR enPassantCapture (position pushedBeside) = 0"
    using taking [THEN conjunct2, THEN conjunct2, THEN conjunct2] gone
    by (simp add: enPassantBy_def pawnType_def)
  have third: "enPassantCapture (position taken) = 0"
    using taking [THEN conjunct1] by (simp add: enPassantBy_def pawnType_def)
  have "makeMove False (quiet PLAYER_PAWN 52 36) rookOnRank \<noteq> None"
    and "makeMove True (enPassantBy True 35 44) pushedBeside \<noteq> None"
    and "generateMoves False rookOnRank \<noteq> None"
    and "enPassantAfter True (enPassantBy True 35 44) pushedBeside = Some 0"
    using made made2 generated third by (simp_all add: enPassantAfter_def)
  moreover have "quiet PLAYER_PAWN 52 36 \<in> set (the (generateMoves False rookOnRank))"
    using among by (simp only: moves_def)
  ultimately show ?thesis
    using first second nonzero enPassantAfter_rookOnRank by (simp only: simp_thms)
qed

section \<open>The pieces named by the generated moves\<close>




















section \<open>The number of men on the board\<close>








text \<open>
  \<open>soldiers\<close>: the piece types of a side that \<open>evaluate\<close> gives a value, which is all but the
  king. \<open>men isEngine p\<close> is the number of bits set in their bitboards.
\<close>

definition soldiers :: "bool \<Rightarrow> PieceType list" where
  "soldiers isEngine =
     (if isEngine then [ENGINE_PAWN, ENGINE_KNIGHT, ENGINE_BISHOP, ENGINE_ROOK, ENGINE_QUEEN]
      else [PLAYER_PAWN, PLAYER_KNIGHT, PLAYER_BISHOP, PLAYER_ROOK, PLAYER_QUEEN])"

definition menOf :: "PieceType list \<Rightarrow> (PieceType \<Rightarrow> bitboard) \<Rightarrow> nat" where
  "menOf ts f = sum_list (map (\<lambda>t. countSetBits (f t)) ts)"

definition men :: "bool \<Rightarrow> Position \<Rightarrow> nat" where
  "men isEngine p = menOf (soldiers isEngine) (pieces p)"

lemma menOf_other: "t \<notin> set ts \<Longrightarrow> menOf ts (f(t := x)) = menOf ts f"
  by (induction ts) (auto simp: menOf_def)




lemma men_other:
  assumes "t \<notin> set (soldiers side)"
  shows "men side (p\<lparr>pieces := (pieces p)(t := x)\<rparr>) = men side p"
  using menOf_other [OF assms] by (simp add: men_def)




section \<open>MoveGen.cpp: getMagicNumber\<close>

text \<open>\<open>popLeastBitboard\<close> takes out the bit that \<open>popLeastSquare\<close> takes out.\<close>

lemma odd_and_minus:
  fixes x :: bitboard
  assumes "odd x"
  shows "x AND - x = 1"
proof -
  from assms obtain m where x: "x = 2 * m + 1"
    by (rule oddE)
  have neg: "- x = NOT (2 * m)"
    by (simp add: x minus_eq_not_minus_1)
  show ?thesis
    unfolding neg
    by (rule bit_eqI)
      (auto simp: x bit_and_iff bit_not_iff even_bit_succ_iff bit_1_iff bit_0
        add.commute [of _ 1])
qed

lemma least_board:
  assumes "board \<noteq> 0"
  shows "board AND (NOT board + 1) = boardOf (getLeastSquare board)"
proof -
  define k where "k = getLeastSquare board"
  define x where "x = drop_bit k board"
  from assms have k: "bit board k"
    by (simp add: k_def getLeastSquare_bit)
  have "take_bit k board = 0"
    by (rule bit_eqI) (auto simp: bit_take_bit_iff k_def getLeastSquare_def dest: tzcnt_least)
  with bits_ident [of k board] have board: "board = push_bit k x"
    by (simp add: x_def)
  from k have "odd x"
    by (simp add: x_def bit_iff_odd_drop_bit)
  then have "x AND - x = 1"
    by (rule odd_and_minus)
  then have "push_bit k x AND - push_bit k x = push_bit k 1"
    by (simp only: push_bit_minus [symmetric] push_bit_and [symmetric])
  then have "board AND - board = push_bit k 1"
    by (simp only: board [symmetric])
  then show ?thesis
    by (simp only: minus_eq_not_plus_1 [symmetric] boardOf_def k_def)
qed

lemma popLeastBitboard_square:
  assumes "board \<noteq> 0"
  shows "popLeastBitboard board
    = (boardOf (getLeastSquare board), board XOR boardOf (getLeastSquare board))"
  by (simp add: popLeastBitboard_def Let_def least_board [OF assms])

text \<open>
  The inner \<open>while (possibleBlockers)\<close> loop: the blocker set of one permutation number.
  The state is \<open>(possibleBlockers, blockerPermutation, actualBlockers)\<close>.
\<close>

function blockerSet :: "bitboard \<Rightarrow> nat \<Rightarrow> bitboard \<Rightarrow> bitboard" where
  "blockerSet possibleBlockers blockerPermutation actualBlockers =
     (if possibleBlockers = 0 then actualBlockers
      else (case popLeastBitboard possibleBlockers of
              (blocker, rest) \<Rightarrow>
                blockerSet rest (blockerPermutation div 2)
                  (if blockerPermutation mod 2 \<noteq> 0 then actualBlockers OR blocker
                   else actualBlockers)))"
  by pat_completeness auto
termination
proof (relation "measure (\<lambda>(possibleBlockers, blockerPermutation, actualBlockers).
    card {n. bit possibleBlockers n})")
  show "wf (measure (\<lambda>(possibleBlockers :: bitboard, blockerPermutation :: nat,
      actualBlockers :: bitboard). card {n. bit possibleBlockers n}))"
    by simp
next
  fix possibleBlockers :: bitboard and blockerPermutation :: nat
    and actualBlockers x blocker rest :: bitboard
  assume nonzero: "possibleBlockers \<noteq> 0"
    and popped: "(blocker, rest) = popLeastBitboard possibleBlockers"
  from popped have "rest = possibleBlockers XOR boardOf (getLeastSquare possibleBlockers)"
    by (simp add: popLeastBitboard_square [OF nonzero])
  moreover have "bit possibleBlockers (getLeastSquare possibleBlockers)"
    using nonzero by (simp add: getLeastSquare_bit)
  ultimately show "((rest, blockerPermutation div 2,
      if blockerPermutation mod 2 \<noteq> 0 then actualBlockers OR blocker else actualBlockers),
      possibleBlockers, blockerPermutation, actualBlockers)
    \<in> measure (\<lambda>(possibleBlockers, blockerPermutation, actualBlockers).
        card {n. bit possibleBlockers n})"
    by (simp add: clear_bit_count)
qed

declare blockerSet.simps [simp del]

text \<open>
  \<open>rand()\<close> belongs to the C library and is seeded with the time: \<open>rand k\<close> stands for the
  value of its call number \<open>k\<close>, and \<open>used\<close> counts the calls made so far. \<open>random64\<close> is
  the loop of Bitboards.h over the 64 bit indices. The three calls in
  \<^verbatim>\<open>random64() & random64() & random64()\<close> take 64 values each.
\<close>

definition random64 :: "(nat \<Rightarrow> int) \<Rightarrow> nat \<Rightarrow> bitboard" where
  "random64 rand used =
     foldl (\<lambda>generated index.
              if rand (used + index) mod 2 = 0 then generated OR push_bit index 1 else generated)
       0 [0..<64]"

definition randomMagic :: "(nat \<Rightarrow> int) \<Rightarrow> nat \<Rightarrow> bitboard" where
  "randomMagic rand used =
     random64 rand used AND random64 rand (used + 64) AND random64 rand (used + 128)"

definition maxPermutations :: "bool \<Rightarrow> nat" where
  "maxPermutations isCardinal = (if isCardinal then 4096 else 512)"

definition slowAttacks :: "bool \<Rightarrow> nat \<Rightarrow> bitboard \<Rightarrow> bitboard" where
  "slowAttacks isCardinal square blockers =
     (if isCardinal then getRookAttacks square blockers True
      else getBishopAttacks square blockers True)"

text \<open>\<^verbatim>\<open>uint16_t hash = blockers[permutation] * magic >> (isCardinal ? 52 : 55);\<close>\<close>

definition magicHash :: "bool \<Rightarrow> bitboard \<Rightarrow> bitboard \<Rightarrow> nat" where
  "magicHash isCardinal blockers magic =
     unat (drop_bit (if isCardinal then 52 else 55) (blockers * magic)) mod 65536"

text \<open>
  The loop over the permutations for one candidate; the list holds \<open>blockers[permutation]\<close>
  with \<open>attacks[permutation]\<close>. \<open>None\<close> is the \<^verbatim>\<open>magic = 0; break;\<close> of a collision.
\<close>

fun fillSeen ::
  "bool \<Rightarrow> bitboard \<Rightarrow> (bitboard \<times> bitboard) list \<Rightarrow> bitboard list \<Rightarrow> bitboard list option" where
  "fillSeen isCardinal magic [] attacksSeen = Some attacksSeen"
| "fillSeen isCardinal magic ((blockers, attacks) # rest) attacksSeen =
     (let hash = magicHash isCardinal blockers magic in
      if attacksSeen ! hash = 0
      then fillSeen isCardinal magic rest (attacksSeen[hash := attacks])
      else if attacksSeen ! hash \<noteq> attacks then None
      else fillSeen isCardinal magic rest attacksSeen)"

text \<open>
  The loop \<^verbatim>\<open>while (tries--)\<close>. The result is the magic number, the table copied from
  \<open>attacksSeen\<close> and the new count of \<open>rand()\<close> calls; \<open>None\<close> is the \<open>assert(false)\<close> after
  the last try.
\<close>

fun findMagic ::
  "(nat \<Rightarrow> int) \<Rightarrow> bool \<Rightarrow> (bitboard \<times> bitboard) list \<Rightarrow> nat \<Rightarrow> nat
   \<Rightarrow> (bitboard \<times> bitboard list \<times> nat) option" where
  "findMagic rand isCardinal permutations tries used =
     (if tries = 0 then None
      else (let magic = randomMagic rand used in
            case fillSeen isCardinal magic permutations
                   (replicate (maxPermutations isCardinal) 0) of
              None \<Rightarrow> findMagic rand isCardinal permutations (tries - 1) (used + 192)
            | Some attacksSeen \<Rightarrow>
                if magic \<noteq> 0 then Some (magic, attacksSeen, used + 192)
                else findMagic rand isCardinal permutations (tries - 1) (used + 192)))"

declare findMagic.simps [simp del]

text \<open>
  \<open>getMagicNumber\<close>. The arrays \<open>attacks\<close> and \<open>blockers\<close> have \<open>maxPermutations\<close> entries
  and \<open>cardinals\<close>, \<open>ordinals\<close> have 64: more permutations or a square from 64 on would
  write past them, which is the result \<open>None\<close>.
\<close>

definition getMagicNumber ::
  "(nat \<Rightarrow> int) \<Rightarrow> nat \<Rightarrow> nat \<Rightarrow> bool \<Rightarrow> (bitboard \<times> bitboard list \<times> nat) option" where
  "getMagicNumber rand used square isCardinal =
     (let blockerMask = (if isCardinal then cardinalBlockers square else ordinalBlockers square);
          numPermutations = (2 :: nat) ^ countSetBits blockerMask
      in if 64 \<le> square \<or> maxPermutations isCardinal < numPermutations then None
         else
           (let blockers = map (\<lambda>permutation. blockerSet blockerMask permutation 0)
                             [0..<numPermutations];
                permutations = map (\<lambda>b. (b, slowAttacks isCardinal square b)) blockers
            in findMagic rand isCardinal permutations 1000000 used))"

section \<open>The accepted table is a perfect hash\<close>

text \<open>The blocker set of a permutation number, over the squares of the mask in order.\<close>

fun spread :: "nat list \<Rightarrow> nat \<Rightarrow> bitboard \<Rightarrow> bitboard" where
  "spread [] permutation actual = actual"
| "spread (square # rest) permutation actual =
     spread rest (permutation div 2)
       (if permutation mod 2 \<noteq> 0 then actual OR boardOf square else actual)"

lemma blockerSet_spread:
  "blockerSet possible permutation actual = spread (squaresOf possible) permutation actual"
proof (induction possible permutation actual rule: blockerSet.induct)
  case (1 possible permutation actual)
  show ?case
  proof (cases "possible = 0")
    case True
    then show ?thesis
      by (simp add: blockerSet.simps squaresOf_0)
  next
    case False
    define k where "k = getLeastSquare possible"
    define rest where "rest = possible XOR boardOf k"
    define actual1 where
      "actual1 = (if permutation mod 2 \<noteq> 0 then actual OR boardOf k else actual)"
    have popped: "(boardOf k, rest) = popLeastBitboard possible"
      by (simp add: popLeastBitboard_square [OF False] k_def rest_def)
    have "blockerSet possible permutation actual = blockerSet rest (permutation div 2) actual1"
      using False
      by (subst blockerSet.simps)
        (simp add: popLeastBitboard_square [OF False] k_def rest_def actual1_def)
    also have "\<dots> = spread (squaresOf rest) (permutation div 2) actual1"
      unfolding actual1_def by (rule "1.IH" [OF False popped])
    also have "\<dots> = spread (squaresOf possible) permutation actual"
      using False
      by (subst (2) squaresOf.simps)
        (simp add: popLeastSquare_def Let_def k_def rest_def actual1_def)
    finally show ?thesis .
  qed
qed

lemma spread_onto:
  assumes "distinct squares" and "\<forall>square \<in> set squares. square < 64"
  shows "\<exists>permutation < 2 ^ length squares.
           \<forall>n. bit (spread squares permutation actual) n
                 \<longleftrightarrow> bit actual n \<or> (n \<in> set squares \<and> bit wanted n)"
  using assms
proof (induction squares arbitrary: actual)
  case Nil
  then show ?case by simp
next
  case (Cons square rest)
  define actual1 where
    "actual1 = (if bit wanted square then actual OR boardOf square else actual)"
  from Cons.prems have "distinct rest" and "\<forall>square \<in> set rest. square < 64"
    and here: "square < 64" and fresh: "square \<notin> set rest"
    by simp_all
  then obtain q where q: "q < 2 ^ length rest"
    and bits: "\<And>n. bit (spread rest q actual1) n
                 \<longleftrightarrow> bit actual1 n \<or> (n \<in> set rest \<and> bit wanted n)"
    using Cons.IH [of actual1] by blast
  define p where "p = 2 * q + (if bit wanted square then 1 else 0)"
  have "p < 2 ^ length (square # rest)"
    using q by (simp add: p_def)
  moreover have "p div 2 = q" and "p mod 2 \<noteq> 0 \<longleftrightarrow> bit wanted square"
    by (simp_all add: p_def)
  then have "spread (square # rest) p actual = spread rest q actual1"
    by (simp add: actual1_def)
  moreover have "bit actual1 n \<longleftrightarrow> bit actual n \<or> (n = square \<and> bit wanted n)" for n
    using here by (auto simp: actual1_def bit_or_iff bit_boardOf)
  ultimately show ?case
    using bits by (intro exI [of _ p]) auto
qed

lemma blockerSet_onto:
  "\<exists>permutation < 2 ^ countSetBits blockerMask.
     blockerSet blockerMask permutation 0 = occupancy AND blockerMask"
proof -
  have "distinct (squaresOf blockerMask)"
    and "\<forall>square \<in> set (squaresOf blockerMask). square < 64"
    by (auto simp: squaresOf_props dest: bit_imp_le_length)
  from spread_onto [OF this, of 0 occupancy]
  obtain p where p: "p < 2 ^ length (squaresOf blockerMask)"
    and bits: "\<And>n. bit (spread (squaresOf blockerMask) p 0) n
                 \<longleftrightarrow> n \<in> set (squaresOf blockerMask) \<and> bit occupancy n"
    by auto
  have "spread (squaresOf blockerMask) p 0 = occupancy AND blockerMask"
    by (rule bit_eqI) (auto simp: bits squaresOf_props bit_and_iff)
  with p show ?thesis
    by (auto simp: blockerSet_spread countSetBits_squaresOf)
qed















text \<open>With \<open>captures\<close> set, the attack set of a rook or a bishop on the board is not empty.\<close>

lemma rayStep_keeps:
  "bit attacks n \<Longrightarrow> bit (fst (rayStep blockers captures square attacks)) n"
  by (simp add: rayStep_def Let_def bit_or_iff)

lemma rayStep_adds:
  "square < 64 \<Longrightarrow> bit (fst (rayStep blockers True square attacks)) square"
  by (simp add: rayStep_def Let_def bit_or_iff bit_boardOf)

lemma walkRay_keeps:
  "bit attacks n \<Longrightarrow> bit (walkRay blockers captures squares attacks) n"
proof (induction squares arbitrary: attacks)
  case Nil
  then show ?case by simp
next
  case (Cons square rest)
  obtain attacks1 stop where step: "rayStep blockers captures square attacks = (attacks1, stop)"
    by (cases "rayStep blockers captures square attacks")
  with rayStep_keeps [OF Cons.prems, of blockers captures square] have "bit attacks1 n"
    by simp
  with Cons.IH [of attacks1] step show ?case
    by simp
qed

lemma walkRay_first:
  assumes "square < 64"
  shows "bit (walkRay blockers True (square # rest) attacks) square"
proof -
  obtain attacks1 stop where step: "rayStep blockers True square attacks = (attacks1, stop)"
    by (cases "rayStep blockers True square attacks")
  with rayStep_adds [OF assms, of blockers attacks] have "bit attacks1 square"
    by simp
  with step show ?thesis
    by (simp add: walkRay_keeps)
qed

lemma getRookAttacks_nonzero:
  assumes "square < 64"
  shows "getRookAttacks square blockers True \<noteq> 0"
proof -
  define row where "row = square div 8"
  define col where "col = square mod 8"
  have col: "col < 8" and row: "row < 8"
    using assms by (simp_all add: col_def row_def)
  have "\<exists>n. bit (getRookAttacks square blockers True) n"
  proof (cases "row = 0")
    case True
    have "southSquares square = (8 + col) # map (\<lambda>r. r * 8 + col) [2..<8]"
      by (simp add: southSquares_def True [unfolded row_def] col_def upt_conv_Cons)
    then have "bit (walkRay blockers True (southSquares square) attacks) (8 + col)" for attacks
      using col by (simp only: walkRay_first)
    then show ?thesis
      unfolding getRookAttacks_def by (blast intro: walkRay_keeps)
  next
    case False
    then obtain above where above: "row = Suc above"
      by (cases row) auto
    have "northSquares square = (above * 8 + col) # map (\<lambda>r. r * 8 + col) (rev [0..<above])"
      by (simp add: northSquares_def above [unfolded row_def] col_def)
    moreover have "above * 8 + col < 64"
      using row col above by simp
    ultimately have "bit (walkRay blockers True (northSquares square) attacks) (above * 8 + col)"
      for attacks
      by (simp only: walkRay_first)
    then show ?thesis
      unfolding getRookAttacks_def by (blast intro: walkRay_keeps)
  qed
  then show ?thesis
    by auto
qed

lemma slide_keeps:
  "bit attacks n \<Longrightarrow> bit (slide rowUp colUp blockers captures row col attacks) n"
proof (induction rowUp colUp blockers captures row col attacks rule: slide.induct)
  case (1 rowUp colUp blockers captures row col attacks)
  show ?case
  proof (cases "isOnBoard row col")
    case False
    with "1.prems" show ?thesis
      by (simp add: slide.simps)
  next
    case True
    obtain attacks1 stop where
      step: "rayStep blockers captures (nat (row * 8 + col)) attacks = (attacks1, stop)"
      by (cases "rayStep blockers captures (nat (row * 8 + col)) attacks")
    with rayStep_keeps [OF "1.prems", of blockers captures "nat (row * 8 + col)"]
    have kept: "bit attacks1 n"
      by simp
    show ?thesis
    proof (cases stop)
      case True
      with \<open>isOnBoard row col\<close> step kept show ?thesis
        by (simp add: slide.simps)
    next
      case False
      from "1.IH" [OF \<open>isOnBoard row col\<close> step [symmetric] False kept]
      show ?thesis
        using \<open>isOnBoard row col\<close> step False by (simp add: slide.simps)
    qed
  qed
qed

lemma slide_first:
  assumes "isOnBoard row col"
  shows "bit (slide rowUp colUp blockers True row col attacks) (nat (row * 8 + col))"
proof -
  obtain attacks1 stop where
    step: "rayStep blockers True (nat (row * 8 + col)) attacks = (attacks1, stop)"
    by (cases "rayStep blockers True (nat (row * 8 + col)) attacks")
  have "nat (row * 8 + col) < 64"
    using assms by (auto simp: isOnBoard_def)
  from rayStep_adds [OF this, of blockers attacks] step
  have "bit attacks1 (nat (row * 8 + col))"
    by simp
  with assms step show ?thesis
    by (subst slide.simps) (simp add: slide_keeps)
qed

lemma getBishopAttacks_nonzero:
  assumes "square < 64"
  shows "getBishopAttacks square blockers True \<noteq> 0"
proof -
  define r where "r = int (square div 8)"
  define c where "c = int (square mod 8)"
  have range: "0 \<le> r" "r < 8" "0 \<le> c" "c < 8"
    using assms by (simp_all add: r_def c_def)
  then consider
      (ne) "isOnBoard (r - 1) (c + 1)"
    | (se) "isOnBoard (r + 1) (c + 1)"
    | (sw) "isOnBoard (r + 1) (c - 1)"
    | (nw) "isOnBoard (r - 1) (c - 1)"
    unfolding isOnBoard_def by linarith
  then have "\<exists>n. bit (getBishopAttacks square blockers True) n"
  proof cases
    case ne
    from slide_first [OF this] show ?thesis
      unfolding getBishopAttacks_def Let_def r_def [symmetric] c_def [symmetric]
      by (blast intro: slide_keeps)
  next
    case se
    from slide_first [OF this] show ?thesis
      unfolding getBishopAttacks_def Let_def r_def [symmetric] c_def [symmetric]
      by (blast intro: slide_keeps)
  next
    case sw
    from slide_first [OF this] show ?thesis
      unfolding getBishopAttacks_def Let_def r_def [symmetric] c_def [symmetric]
      by (blast intro: slide_keeps)
  next
    case nw
    from slide_first [OF this] show ?thesis
      unfolding getBishopAttacks_def Let_def r_def [symmetric] c_def [symmetric]
      by (blast intro: slide_keeps)
  qed
  then show ?thesis
    by auto
qed

lemma slowAttacks_nonzero: "square < 64 \<Longrightarrow> slowAttacks isCardinal square blockers \<noteq> 0"
  by (simp add: slowAttacks_def getRookAttacks_nonzero getBishopAttacks_nonzero)

section \<open>The static evaluation of a position with few men\<close>



















lemma shifted_less:
  fixes w :: bitboard
  shows "unat (drop_bit 52 w) < 4096" and "unat (drop_bit 55 w) < 512"
proof -
  have bound: "unat w < 2 ^ 64"
    using unsigned_less [of w] by simp
  have shifted: "unat (drop_bit k w) = unat w div 2 ^ k" for k
  proof -
    have "unat (drop_bit k w) = drop_bit k (unat w)"
      by (rule unat_drop_bit_eq)
    also have "\<dots> = unat w div 2 ^ k"
      by (rule drop_bit_eq_div)
    finally show ?thesis .
  qed
  have "unat w div 2 ^ 52 < 4096"
    by (rule less_mult_imp_div_less) (use bound in simp)
  then show "unat (drop_bit 52 w) < 4096"
    by (simp only: shifted)
  have "unat w div 2 ^ 55 < 512"
    by (rule less_mult_imp_div_less) (use bound in simp)
  then show "unat (drop_bit 55 w) < 512"
    by (simp only: shifted)
qed

lemma magicHash_less: "magicHash isCardinal blockers magic < maxPermutations isCardinal"
  using shifted_less [of "blockers * magic"]
  by (simp add: magicHash_def maxPermutations_def)

lemma magicHash_index:
  "magicHash isCardinal blockers magic
     = unat (drop_bit (if isCardinal then 52 else 55) (blockers * magic))"
  using shifted_less [of "blockers * magic"]
  by (simp add: magicHash_def)

lemma fillSeen_table:
  assumes "fillSeen isCardinal magic permutations attacksSeen = Some table"
    and "\<forall>(blockers, attacks) \<in> set permutations. attacks \<noteq> 0"
  shows "length table = length attacksSeen
    \<and> (\<forall>h. attacksSeen ! h \<noteq> 0 \<longrightarrow> table ! h = attacksSeen ! h)
    \<and> (\<forall>(blockers, attacks) \<in> set permutations.
          magicHash isCardinal blockers magic < length attacksSeen
          \<longrightarrow> table ! magicHash isCardinal blockers magic = attacks)"
  using assms
proof (induction permutations arbitrary: attacksSeen)
  case Nil
  then show ?case by simp
next
  case (Cons entry rest)
  obtain blockers attacks where entry: "entry = (blockers, attacks)"
    by (cases entry)
  define h where "h = magicHash isCardinal blockers magic"
  from Cons.prems(2) entry have attacks: "attacks \<noteq> 0"
    and others: "\<forall>(blockers, attacks) \<in> set rest. attacks \<noteq> 0"
    by auto
  show ?case
  proof (cases "attacksSeen ! h = 0")
    case True
    define seen1 where "seen1 = attacksSeen[h := attacks]"
    from Cons.prems(1) True have "fillSeen isCardinal magic rest seen1 = Some table"
      by (simp add: entry h_def seen1_def Let_def)
    from Cons.IH [OF this others]
    have len: "length table = length seen1"
      and old: "\<And>k. seen1 ! k \<noteq> 0 \<Longrightarrow> table ! k = seen1 ! k"
      and new: "\<And>b a. (b, a) \<in> set rest \<Longrightarrow> magicHash isCardinal b magic < length seen1
                  \<Longrightarrow> table ! magicHash isCardinal b magic = a"
      by auto
    have "table ! k = attacksSeen ! k" if "attacksSeen ! k \<noteq> 0" for k
    proof -
      from that True have "k \<noteq> h" by auto
      then have "seen1 ! k = attacksSeen ! k"
        by (simp add: seen1_def)
      with that old [of k] show ?thesis by simp
    qed
    moreover have "table ! h = attacks" if "h < length attacksSeen"
    proof -
      from that have "seen1 ! h = attacks"
        by (simp add: seen1_def)
      with attacks old [of h] show ?thesis by simp
    qed
    ultimately show ?thesis
      using len new by (auto simp: entry seen1_def h_def)
  next
    case False
    with Cons.prems(1) have same: "attacksSeen ! h = attacks"
      and "fillSeen isCardinal magic rest attacksSeen = Some table"
      by (auto simp: entry h_def Let_def split: if_splits)
    from Cons.IH [OF this(2) others]
    have len: "length table = length attacksSeen"
      and old: "\<And>k. attacksSeen ! k \<noteq> 0 \<Longrightarrow> table ! k = attacksSeen ! k"
      and new: "\<And>b a. (b, a) \<in> set rest \<Longrightarrow> magicHash isCardinal b magic < length attacksSeen
                  \<Longrightarrow> table ! magicHash isCardinal b magic = a"
      by auto
    from old [of h] False same have "table ! h = attacks"
      by simp
    with len old new show ?thesis
      by (auto simp: entry h_def)
  qed
qed

lemma findMagic_accepts:
  assumes "findMagic rand isCardinal permutations tries used = Some (magic, table, used1)"
  shows "fillSeen isCardinal magic permutations (replicate (maxPermutations isCardinal) 0)
           = Some table"
  using assms
proof (induction rand isCardinal permutations tries used rule: findMagic.induct)
  case (1 rand isCardinal permutations tries used)
  from "1.prems" have tries: "tries \<noteq> 0"
    by (subst (asm) findMagic.simps) (auto split: if_splits)
  define candidate where "candidate = randomMagic rand used"
  show ?case
  proof (cases "fillSeen isCardinal candidate permutations
                  (replicate (maxPermutations isCardinal) 0)")
    case None
    with "1.prems" tries
    have "findMagic rand isCardinal permutations (tries - 1) (used + 192)
        = Some (magic, table, used1)"
      by (subst (asm) findMagic.simps) (simp add: candidate_def Let_def)
    with "1.IH"(1) [OF tries candidate_def None] show ?thesis
      by simp
  next
    case (Some attacksSeen)
    show ?thesis
    proof (cases "candidate = 0")
      case True
      with "1.prems" tries Some
      have "findMagic rand isCardinal permutations (tries - 1) (used + 192)
          = Some (magic, table, used1)"
        by (subst (asm) findMagic.simps) (simp add: candidate_def Let_def)
      with "1.IH"(2) [OF tries candidate_def Some] True show ?thesis
        by simp
    next
      case False
      with "1.prems" tries Some have "magic = candidate" and "table = attacksSeen"
        by (subst (asm) findMagic.simps, simp add: candidate_def Let_def)+
      with Some show ?thesis
        by simp
    qed
  qed
qed

text \<open>
  Claim C9. Whenever \<open>getMagicNumber\<close> returns for a square with a magic number and a
  table, then for every occupancy the entry of the table at the index
  \<open>((occupancy & blockers) * magic) >> 52\<close> (for the rook directions; \<open>>> 55\<close> for the bishop
  directions) is the attack set that the ray loops compute for \<open>occupancy & blockers\<close>.
\<close>

theorem magic_table_lookup:
  assumes "getMagicNumber rand used square isCardinal = Some (magic, table, used1)"
  shows "table ! unat (drop_bit (if isCardinal then 52 else 55)
                        ((occupancy AND (if isCardinal then cardinalBlockers square
                                         else ordinalBlockers square)) * magic))
           = (if isCardinal
              then getRookAttacks square (occupancy AND cardinalBlockers square) True
              else getBishopAttacks square (occupancy AND ordinalBlockers square) True)"
proof -
  define blockerMask where
    "blockerMask = (if isCardinal then cardinalBlockers square else ordinalBlockers square)"
  define numPermutations where "numPermutations = (2 :: nat) ^ countSetBits blockerMask"
  define permutations where "permutations =
    map (\<lambda>b. (b, slowAttacks isCardinal square b))
      (map (\<lambda>permutation. blockerSet blockerMask permutation 0) [0..<numPermutations])"
  from assms have square: "square < 64"
    and found: "findMagic rand isCardinal permutations 1000000 used = Some (magic, table, used1)"
    by (auto simp: getMagicNumber_def Let_def blockerMask_def numPermutations_def
        permutations_def split: if_splits)
  have nonzero: "\<forall>(blockers, attacks) \<in> set permutations. attacks \<noteq> 0"
    by (auto simp: permutations_def slowAttacks_nonzero [OF square])
  from fillSeen_table [OF findMagic_accepts [OF found] nonzero]
  have entries: "\<And>b a. (b, a) \<in> set permutations \<Longrightarrow> table ! magicHash isCardinal b magic = a"
    using magicHash_less [of isCardinal _ magic] by auto
  obtain p where "p < numPermutations"
    and "blockerSet blockerMask p 0 = occupancy AND blockerMask"
    using blockerSet_onto [of blockerMask occupancy] by (auto simp: numPermutations_def)
  then have "(occupancy AND blockerMask, slowAttacks isCardinal square (occupancy AND blockerMask))
      \<in> set permutations"
    by (force simp: permutations_def)
  from entries [OF this]
  have "table ! unat (drop_bit (if isCardinal then 52 else 55) ((occupancy AND blockerMask) * magic))
      = slowAttacks isCardinal square (occupancy AND blockerMask)"
    by (simp only: magicHash_index)
  then show ?thesis
    by (cases isCardinal) (simp_all add: blockerMask_def slowAttacks_def)
qed

text \<open>The bits of \<open>random64\<close>, and a sequence of \<open>rand()\<close> values that yields a given number.\<close>

lemma random64_bits:
  "bit (random64 rand used) n \<longleftrightarrow> n < 64 \<and> rand (used + n) mod 2 = 0"
proof -
  have "bit (foldl (\<lambda>generated index.
              if rand (used + index) mod 2 = 0 then generated OR push_bit index 1 else generated)
            (0 :: bitboard) [0..<m]) n
      \<longleftrightarrow> n < m \<and> n < 64 \<and> rand (used + n) mod 2 = 0" for m
  proof (induction m)
    case 0
    show ?case by simp
  next
    case (Suc m)
    then show ?case
      by (auto simp: bit_or_iff bit_exp_iff less_Suc_eq)
  qed
  from this [of 64] show ?thesis
    by (auto simp: random64_def)
qed

definition steadyRand :: "bitboard \<Rightarrow> nat \<Rightarrow> int" where
  "steadyRand wanted k = (if bit wanted (k mod 64) then 0 else 1)"

lemma random64_steady:
  assumes "used mod 64 = 0"
  shows "random64 (steadyRand wanted) used = wanted"
proof (rule bit_eqI)
  fix n
  show "bit (random64 (steadyRand wanted) used) n \<longleftrightarrow> bit wanted n"
  proof (cases "n < 64")
    case True
    have "(used + n) mod 64 = (used mod 64 + n) mod 64"
      by (simp only: mod_add_left_eq)
    also have "\<dots> = n"
      using assms True by simp
    finally show ?thesis
      using True by (simp add: random64_bits steadyRand_def)
  next
    case False
    then have "\<not> bit wanted n"
      by (auto dest: bit_imp_le_length)
    with False show ?thesis
      by (simp add: random64_bits)
  qed
qed

lemma randomMagic_steady:
  assumes "used mod 64 = 0"
  shows "randomMagic (steadyRand wanted) used = wanted"
proof -
  from assms have "(used + 64) mod 64 = 0" and "(used + 128) mod 64 = 0"
    by presburger+
  with assms show ?thesis
    by (simp add: randomMagic_def random64_steady)
qed

lemma W_mult: "W m * W n = Wo (take_bit_num 64 (m * n))"
  by (simp only: W_canon [symmetric]) (simp add: W_def)

lemma unat_W: "unat (W n) = (case take_bit_num 64 n of None \<Rightarrow> 0 | Some q \<Rightarrow> numeral q)"
proof -
  have "unat (numeral n :: bitboard) = take_bit 64 (numeral n)"
    using unsigned_numeral [of n, where ?'b = 64 and ?'a = nat] by simp
  then show ?thesis
    by (simp only: W_def take_bit_numeral_numeral)
qed

lemmas magic_defs = getMagicNumber_def findMagic.simps fillSeen.simps spread.simps
  blockerSet_spread magicHash_def maxPermutations_def slowAttacks_def W_mult unat_W

text \<open>
  The bishop directions on square 0: the mask has six squares, so there are 64 permutations.
  With \<open>rand()\<close> values that make every \<open>random64()\<close> the number \<open>cornerMagic\<close>, the first
  try is accepted.
\<close>

definition cornerMagic :: bitboard where
  "cornerMagic = 0x1c50048120096409"

lemma getMagicNumber_corner:
  "map_option fst (getMagicNumber (steadyRand cornerMagic) 0 0 False) = Some cornerMagic"
  by (simp add: cornerMagic_def randomMagic_steady eval64 ray_defs const_defs magic_defs
      ordinalBlockers_table
      split del: if_split cong: let_weak_cong option.case_cong_weak prod.case_cong_weak)

theorem magic_table_lookup_witness:
  "map_option fst (getMagicNumber (steadyRand cornerMagic) 0 0 False) = Some cornerMagic
   \<and> fst (snd (the (getMagicNumber (steadyRand cornerMagic) 0 0 False)))
       ! unat (drop_bit 55 ((0x1000200000040020 AND ordinalBlockers 0) * cornerMagic))
     = getBishopAttacks 0 (0x1000200000040020 AND ordinalBlockers 0) True"
proof -
  obtain table used1 where accepted:
    "getMagicNumber (steadyRand cornerMagic) 0 0 False = Some (cornerMagic, table, used1)"
    using getMagicNumber_corner
    by (cases "getMagicNumber (steadyRand cornerMagic) 0 0 False") auto
  from magic_table_lookup [OF accepted, of "0x1000200000040020"]
  have "table ! unat (drop_bit 55 ((0x1000200000040020 AND ordinalBlockers 0) * cornerMagic))
      = getBishopAttacks 0 (0x1000200000040020 AND ordinalBlockers 0) True"
    by (simp only: if_False)
  with accepted getMagicNumber_corner show ?thesis
    by (simp only: option.sel fst_conv snd_conv simp_thms)
qed
end
